theory Spec2Isabelle
  imports Main "HOL-Library.Word"
begin

unbundle bit_operations_syntax

section \<open>Byte-addressed memory\<close>

text \<open>
  The allocator of \<^verbatim>\<open>allocator.c\<close> threads an intrusive doubly linked list through raw
  memory obtained from \<^verbatim>\<open>mmap\<close>. The model keeps that memory as it is: a function from
  64-bit addresses to bytes. \<^verbatim>\<open>size_t\<close> and pointers are 64-bit words (an LP64 platform, as
  the POSIX calls of the source suggest), \<^verbatim>\<open>int\<close> is a 32-bit word, multi-byte values are
  stored little-endian. A header written into the middle of a payload therefore overwrites
  payload bytes, exactly as in the C program. Accesses to unmapped addresses (a fault in the
  C program) are not modelled: every address can be read and written.
\<close>

type_synonym addr = "64 word"

type_synonym byte = "8 word"

type_synonym memory = "addr \<Rightarrow> byte"

abbreviation NULL :: addr where
  "NULL \<equiv> 0"

definition word_of_bytes :: "byte list \<Rightarrow> 'a::len word" where
  "word_of_bytes bs = foldr (\<lambda>b w. ucast b OR push_bit 8 w) bs 0"

definition load64 :: "memory \<Rightarrow> addr \<Rightarrow> 64 word" where
  "load64 m a =
     word_of_bytes [m a, m (a + 1), m (a + 2), m (a + 3), m (a + 4), m (a + 5), m (a + 6), m (a + 7)]"

definition load32 :: "memory \<Rightarrow> addr \<Rightarrow> 32 word" where
  "load32 m a = word_of_bytes [m a, m (a + 1), m (a + 2), m (a + 3)]"

definition store64 :: "memory \<Rightarrow> addr \<Rightarrow> 64 word \<Rightarrow> memory" where
  "store64 m a v = (\<lambda>x. if unat (x - a) < 8 then ucast (drop_bit (8 * unat (x - a)) v) else m x)"

definition store32 :: "memory \<Rightarrow> addr \<Rightarrow> 32 word \<Rightarrow> memory" where
  "store32 m a v = (\<lambda>x. if unat (x - a) < 4 then ucast (drop_bit (8 * unat (x - a)) v) else m x)"

text \<open>\<^verbatim>\<open>memset(p, c, n)\<close> and \<^verbatim>\<open>memcpy(dst, src, n)\<close> of the C library.\<close>

definition memset :: "memory \<Rightarrow> addr \<Rightarrow> byte \<Rightarrow> 64 word \<Rightarrow> memory" where
  "memset m p c n = (\<lambda>x. if unat (x - p) < unat n then c else m x)"

definition memcpy :: "memory \<Rightarrow> addr \<Rightarrow> addr \<Rightarrow> 64 word \<Rightarrow> memory" where
  "memcpy m dst src n = (\<lambda>x. if unat (x - dst) < unat n then m (src + (x - dst)) else m x)"

section \<open>Allocator state and block headers\<close>

text \<open>
  \<^verbatim>\<open>free_list\<close> is the static list head of the source. The two logs record the system calls
  made so far: every successful \<^verbatim>\<open>mmap\<close> as (address, length) and every \<^verbatim>\<open>munmap\<close> call
  as (address, length). The mutex is not modelled: every operation runs alone.
\<close>

record state =
  mem :: memory
  free_list :: addr
  mmap_log :: "(addr \<times> 64 word) list"
  munmap_log :: "(addr \<times> 64 word) list"

definition ALIGNMENT :: "64 word" where
  "ALIGNMENT = 16"

text \<open>
  \<^verbatim>\<open>BLOCK_SIZE\<close> is \<^verbatim>\<open>sizeof(memory_block_t)\<close>: \<^verbatim>\<open>size_t size\<close> at offset 0, \<^verbatim>\<open>int free\<close> at
  offset 8 (followed by 4 bytes of padding), \<^verbatim>\<open>next\<close> at offset 16, \<^verbatim>\<open>prev\<close> at offset 24.
\<close>

definition BLOCK_SIZE :: "64 word" where
  "BLOCK_SIZE = 32"

definition MAP_FAILED :: addr where
  "MAP_FAILED = - 1"

definition get_size :: "state \<Rightarrow> addr \<Rightarrow> 64 word" where
  "get_size s block = load64 (mem s) block"

definition get_free :: "state \<Rightarrow> addr \<Rightarrow> 32 word" where
  "get_free s block = load32 (mem s) (block + 8)"

definition get_next :: "state \<Rightarrow> addr \<Rightarrow> addr" where
  "get_next s block = load64 (mem s) (block + 16)"

definition get_prev :: "state \<Rightarrow> addr \<Rightarrow> addr" where
  "get_prev s block = load64 (mem s) (block + 24)"

definition set_size :: "addr \<Rightarrow> 64 word \<Rightarrow> state \<Rightarrow> state" where
  "set_size block v s = s\<lparr>mem := store64 (mem s) block v\<rparr>"

definition set_free :: "addr \<Rightarrow> 32 word \<Rightarrow> state \<Rightarrow> state" where
  "set_free block v s = s\<lparr>mem := store32 (mem s) (block + 8) v\<rparr>"

definition set_next :: "addr \<Rightarrow> addr \<Rightarrow> state \<Rightarrow> state" where
  "set_next block v s = s\<lparr>mem := store64 (mem s) (block + 16) v\<rparr>"

definition set_prev :: "addr \<Rightarrow> addr \<Rightarrow> state \<Rightarrow> state" where
  "set_prev block v s = s\<lparr>mem := store64 (mem s) (block + 24) v\<rparr>"

text \<open>The state before any call: the static initialisers of the source, over any memory.\<close>

definition initial_state :: "memory \<Rightarrow> state" where
  "initial_state m = \<lparr>mem = m, free_list = NULL, mmap_log = [], munmap_log = []\<rparr>"

section \<open>The helper functions\<close>

definition align_size :: "64 word \<Rightarrow> 64 word" where
  "align_size sz = (sz + (ALIGNMENT - 1)) AND NOT (ALIGNMENT - 1)"

text \<open>
  \<^verbatim>\<open>find_block\<close>: the first-fit scan. The loop follows \<^verbatim>\<open>next\<close> pointers read from memory
  and need not terminate on a cyclic list; not returning is the value \<open>None\<close>.
\<close>

partial_function (option) find_block_from :: "state \<Rightarrow> 64 word \<Rightarrow> addr \<Rightarrow> addr option" where
  "find_block_from s sz current =
     (if current \<noteq> NULL then
        (if get_free s current \<noteq> 0 \<and> sz \<le> get_size s current then Some current
         else find_block_from s sz (get_next s current))
      else Some NULL)"

definition find_block :: "64 word \<Rightarrow> state \<Rightarrow> addr option" where
  "find_block sz s = find_block_from s sz (free_list s)"

text \<open>
  \<^verbatim>\<open>extend_heap\<close>. The environment supplies \<open>pg\<close>, the value of \<^verbatim>\<open>sysconf(_SC_PAGESIZE)\<close>,
  and \<open>mm\<close>, the value the \<^verbatim>\<open>mmap\<close> call returns. A successful anonymous private mapping is
  zero-filled by the operating system.
\<close>

definition mmap_anon :: "addr \<Rightarrow> 64 word \<Rightarrow> state \<Rightarrow> state" where
  "mmap_anon block len s =
     s\<lparr>mem := memset (mem s) block 0 len, mmap_log := mmap_log s @ [(block, len)]\<rparr>"

definition extend_heap :: "64 word \<Rightarrow> addr \<Rightarrow> addr \<Rightarrow> 64 word \<Rightarrow> state \<Rightarrow> addr \<times> state" where
  "extend_heap pg mm last_block sz s =
     (let total_size = sz + BLOCK_SIZE;
          total_size = (total_size + pg - 1) AND NOT (pg - 1);
          block = mm
      in if block = MAP_FAILED then (NULL, s)
         else
           let s = mmap_anon block total_size s;
               s = set_size block (total_size - BLOCK_SIZE) s;
               s = set_free block 0 s;
               s = set_next block NULL s;
               s = set_prev block last_block s;
               s = (if last_block \<noteq> NULL then set_next last_block block s else s\<lparr>free_list := block\<rparr>)
           in (block, s))"

definition split_block :: "addr \<Rightarrow> 64 word \<Rightarrow> state \<Rightarrow> state" where
  "split_block block sz s =
     (let new_block = block + BLOCK_SIZE + sz;
          s = set_size new_block (get_size s block - sz - BLOCK_SIZE) s;
          s = set_free new_block 1 s;
          s = set_next new_block (get_next s block) s;
          s = set_prev new_block block s;
          s = (if get_next s new_block \<noteq> NULL then set_prev (get_next s new_block) new_block s
               else s);
          s = set_size block sz s;
          s = set_next block new_block s
      in s)"

definition get_block :: "addr \<Rightarrow> addr" where
  "get_block ptr = ptr - BLOCK_SIZE"

definition valid_block :: "state \<Rightarrow> addr \<Rightarrow> bool" where
  "valid_block s block \<longleftrightarrow> block \<noteq> NULL \<and> get_free s block = 0"

definition merge_blocks :: "addr \<Rightarrow> state \<Rightarrow> state" where
  "merge_blocks block s =
     (let s = (if get_next s block \<noteq> NULL \<and> get_free s (get_next s block) \<noteq> 0 then
                 let s = set_size block
                           (get_size s block + (BLOCK_SIZE + get_size s (get_next s block))) s;
                     s = set_next block (get_next s (get_next s block)) s
                 in if get_next s block \<noteq> NULL then set_prev (get_next s block) block s else s
               else s)
      in if get_prev s block \<noteq> NULL \<and> get_free s (get_prev s block) \<noteq> 0 then
           let s = set_size (get_prev s block)
                     (get_size s (get_prev s block) + (BLOCK_SIZE + get_size s block)) s;
               s = set_next (get_prev s block) (get_next s block) s
           in if get_next s block \<noteq> NULL then set_prev (get_next s block) (get_prev s block) s
              else s
         else s)"

section \<open>The public operations\<close>

definition allocator_init :: "state \<Rightarrow> int \<times> state" where
  "allocator_init s = (0, s)"

definition munmap :: "addr \<Rightarrow> 64 word \<Rightarrow> state \<Rightarrow> state" where
  "munmap a len s = s\<lparr>munmap_log := munmap_log s @ [(a, len)]\<rparr>"

partial_function (option) destroy_from :: "addr \<Rightarrow> state \<Rightarrow> state option" where
  "destroy_from current s =
     (if current \<noteq> NULL then
        destroy_from (get_next s current)
          (if get_free s current = 0 then munmap current (get_size s current + BLOCK_SIZE) s
           else s)
      else Some s)"

definition allocator_destroy :: "state \<Rightarrow> state option" where
  "allocator_destroy s =
     (case destroy_from (free_list s) s of
        None \<Rightarrow> None
      | Some s \<Rightarrow> Some (s\<lparr>free_list := NULL\<rparr>))"

definition allocator_malloc :: "64 word \<Rightarrow> addr \<Rightarrow> 64 word \<Rightarrow> state \<Rightarrow> (addr \<times> state) option" where
  "allocator_malloc pg mm sz s =
     (if sz = 0 then Some (NULL, s)
      else
        let sz = align_size sz in
        case find_block sz s of
          None \<Rightarrow> None
        | Some block \<Rightarrow>
            if block \<noteq> NULL then
              let s = set_free block 0 s;
                  s = (if sz + BLOCK_SIZE + ALIGNMENT < get_size s block
                       then split_block block sz s else s)
              in Some (block + BLOCK_SIZE, s)
            else
              case extend_heap pg mm (free_list s) sz s of
                (block, s) \<Rightarrow>
                  if block = NULL then Some (NULL, s) else Some (block + BLOCK_SIZE, s))"

definition allocator_free :: "addr \<Rightarrow> state \<Rightarrow> state" where
  "allocator_free ptr s =
     (if ptr = NULL then s
      else
        let block = get_block ptr in
        if \<not> valid_block s block then s
        else merge_blocks block (set_free block 1 s))"

definition allocator_realloc :: "64 word \<Rightarrow> addr \<Rightarrow> addr \<Rightarrow> 64 word \<Rightarrow> state \<Rightarrow> (addr \<times> state) option" where
  "allocator_realloc pg mm ptr sz s =
     (if ptr = NULL then allocator_malloc pg mm sz s
      else if sz = 0 then Some (NULL, allocator_free ptr s)
      else
        let block = get_block ptr in
        if \<not> valid_block s block then Some (NULL, s)
        else
          let sz = align_size sz in
          if sz \<le> get_size s block then
            Some (ptr, if sz + BLOCK_SIZE + ALIGNMENT < get_size s block
                       then split_block block sz s else s)
          else
            case allocator_malloc pg mm sz s of
              None \<Rightarrow> None
            | Some (new_ptr, s) \<Rightarrow>
                if new_ptr = NULL then Some (NULL, s)
                else
                  let s = s\<lparr>mem := memcpy (mem s) new_ptr ptr (get_size s block)\<rparr>
                  in Some (new_ptr, allocator_free ptr s))"

definition allocator_calloc :: "64 word \<Rightarrow> addr \<Rightarrow> 64 word \<Rightarrow> 64 word \<Rightarrow> state \<Rightarrow> (addr \<times> state) option" where
  "allocator_calloc pg mm nmemb sz s =
     (let total_size = nmemb * sz in
      case allocator_malloc pg mm total_size s of
        None \<Rightarrow> None
      | Some (ptr, s) \<Rightarrow>
          if ptr \<noteq> NULL then Some (ptr, s\<lparr>mem := memset (mem s) ptr 0 total_size\<rparr>)
          else Some (ptr, s))"

section \<open>Notions used to state the properties\<close>

text \<open>
  \<open>mapping_length pg sz\<close> is the value of \<^verbatim>\<open>total_size\<close> that \<^verbatim>\<open>extend_heap\<close> passes to
  \<^verbatim>\<open>mmap\<close> for a request of \<open>sz\<close> bytes: header plus request, rounded with the page size.
\<close>

definition mapping_length :: "64 word \<Rightarrow> 64 word \<Rightarrow> 64 word" where
  "mapping_length pg sz = (sz + BLOCK_SIZE + pg - 1) AND NOT (pg - 1)"

text \<open>
  \<open>apart a n b k\<close>: the \<open>n\<close> bytes from address \<open>a\<close> and the \<open>k\<close> bytes from address \<open>b\<close>
  share no address (neither range contains the start of the other).
\<close>

definition apart :: "addr \<Rightarrow> nat \<Rightarrow> addr \<Rightarrow> nat \<Rightarrow> bool" where
  "apart a n b k \<longleftrightarrow> k \<le> unat (a - b) \<and> n \<le> unat (b - a)"

text \<open>
  The caller of the allocator writes into a payload: \<open>fill m p f n\<close> is the memory after
  the bytes \<open>f 0, \<dots>, f (n - 1)\<close> were written to \<open>p[0], \<dots>, p[n - 1]\<close>.
\<close>

definition fill :: "memory \<Rightarrow> addr \<Rightarrow> (nat \<Rightarrow> byte) \<Rightarrow> 64 word \<Rightarrow> memory" where
  "fill m p f n = (\<lambda>x. if unat (x - p) < unat n then f (unat (x - p)) else m x)"

text \<open>
  \<open>mapped a len\<close>: the \<open>len\<close> bytes from \<open>a\<close> are a possible answer of a successful \<^verbatim>\<open>mmap\<close>,
  a region that starts above the null address and does not wrap around the address space.
  \<open>disjoint_regions\<close>: two such regions that do not overlap.
\<close>

definition mapped :: "addr \<Rightarrow> 64 word \<Rightarrow> bool" where
  "mapped a len \<longleftrightarrow> 0 < unat a \<and> unat a + unat len < 2 ^ 64"

definition disjoint_regions :: "addr \<Rightarrow> 64 word \<Rightarrow> addr \<Rightarrow> 64 word \<Rightarrow> bool" where
  "disjoint_regions a la b lb \<longleftrightarrow> unat a + unat la \<le> unat b \<or> unat b + unat lb \<le> unat a"

text \<open>
  The blocks of a heap. The block whose header is at \<open>b\<close> occupies the addresses from \<open>b\<close> up
  to, and not including, \<open>block_end s b\<close>: the header and a payload of the size that the
  header records.
\<close>

definition block_end :: "state \<Rightarrow> addr \<Rightarrow> nat" where
  "block_end s b = unat b + 32 + unat (get_size s b)"

text \<open>
  \<open>block_path s p cs\<close>: following the \<^verbatim>\<open>next\<close> links from \<open>p\<close> leads through the blocks \<open>cs\<close>, in
  this order, and then to the null pointer.
\<close>

fun block_path :: "state \<Rightarrow> addr \<Rightarrow> addr list \<Rightarrow> bool" where
  "block_path s p [] \<longleftrightarrow> p = NULL"
| "block_path s p (b # bs) \<longleftrightarrow> p = b \<and> b \<noteq> NULL \<and> block_path s (get_next s b) bs"


text \<open>
  The heap invariant \<open>heap_ok s B cs\<close>, for a set \<open>B\<close> of block headers and the list \<open>cs\<close> of the
  blocks that are reached from the list head:
  \<^item> no block of \<open>B\<close> is at the null address, every block of \<open>B\<close> ends inside the address
    space, its \<^verbatim>\<open>next\<close> and \<^verbatim>\<open>prev\<close> links are null or lead to blocks of \<open>B\<close>, and no block is
    linked to itself;
  \<^item> two different blocks of \<open>B\<close> do not overlap;
  \<^item> \<open>cs\<close> consists of different blocks of \<open>B\<close>, and the \<^verbatim>\<open>next\<close> links lead from the list head
    through \<open>cs\<close> to the null pointer.

  \<open>B\<close> can be larger than \<open>cs\<close>: an allocation that maps memory links the new block behind
  the list head, and the blocks that were behind the head leave the list while their headers
  stay in memory. The invariant does not mention the free flags, and it does not ask that
  neighbours in the list are neighbours in memory.
\<close>

definition heap_ok :: "state \<Rightarrow> addr set \<Rightarrow> addr list \<Rightarrow> bool" where
  "heap_ok s B cs \<longleftrightarrow>
     NULL \<notin> B
     \<and> (\<forall>b\<in>B. block_end s b < 2 ^ 64
            \<and> get_next s b \<in> insert NULL B \<and> get_prev s b \<in> insert NULL B
            \<and> get_next s b \<noteq> b \<and> get_prev s b \<noteq> b)
     \<and> (\<forall>b\<in>B. \<forall>c\<in>B. b \<noteq> c \<longrightarrow> block_end s b \<le> unat c \<or> block_end s c \<le> unat b)
     \<and> set cs \<subseteq> B \<and> distinct cs \<and> block_path s (free_list s) cs"

text \<open>
  \<open>fresh s B a len\<close>: the \<open>len\<close> bytes from \<open>a\<close> are a possible answer of \<^verbatim>\<open>mmap\<close> in the state \<open>s\<close>,
  a region inside the address space that overlaps no block of \<open>B\<close>.
\<close>

definition fresh :: "state \<Rightarrow> addr set \<Rightarrow> addr \<Rightarrow> 64 word \<Rightarrow> bool" where
  "fresh s B a len \<longleftrightarrow>
     mapped a len \<and> (\<forall>b\<in>B. unat a + unat len \<le> unat b \<or> block_end s b \<le> unat a)"

text \<open>
  \<open>headers_apart B\<close>: the headers of two different blocks of \<open>B\<close> share no address.
  \<open>outside B x\<close>: the address \<open>x\<close> lies in no header of a block of \<open>B\<close>.
\<close>

definition headers_apart :: "addr set \<Rightarrow> bool" where
  "headers_apart B \<longleftrightarrow> (\<forall>b\<in>B. \<forall>c\<in>B. b \<noteq> c \<longrightarrow> apart b 32 c 32)"

definition outside :: "addr set \<Rightarrow> addr \<Rightarrow> bool" where
  "outside B x \<longleftrightarrow> (\<forall>c\<in>B. apart x 1 c 32)"

text \<open>The list \<open>cs\<close> with the block \<open>n\<close> put behind the block \<open>r\<close>.\<close>

fun insert_after :: "addr \<Rightarrow> addr \<Rightarrow> addr list \<Rightarrow> addr list" where
  "insert_after r n [] = []"
| "insert_after r n (c # cs) = (if c = r then c # n # cs else c # insert_after r n cs)"

text \<open>
  \<open>joined s B a b\<close>: the block \<open>b\<close> is joined to the block \<open>a\<close>. It is the successor of \<open>a\<close> in
  the list and not the list head, it starts where \<open>a\<close> ends, and no link leads to it but the
  \<^verbatim>\<open>next\<close> link of \<open>a\<close> and the \<^verbatim>\<open>prev\<close> link of its own successor (which is not \<open>a\<close>).
\<close>

definition joined :: "state \<Rightarrow> addr set \<Rightarrow> addr \<Rightarrow> addr \<Rightarrow> bool" where
  "joined s B a b \<longleftrightarrow>
     get_next s a = b \<and> unat b = block_end s a \<and> free_list s \<noteq> b \<and> get_next s b \<noteq> a
     \<and> (\<forall>c\<in>B. get_next s c = b \<longrightarrow> c = a)
     \<and> (\<forall>c\<in>B. get_prev s c = b \<longrightarrow> c = get_next s b)"

section \<open>Reading and writing memory\<close>

text \<open>
  A value read back from where it was stored is the value stored, and a store leaves every
  location outside its own byte range alone. Ranges are compared by wrap-around distance:
  an address \<open>x\<close> lies in the \<open>n\<close> bytes from \<open>a\<close> exactly when \<open>unat (x - a) < n\<close>.
\<close>

lemma unat_minus_1_64 [simp]: "unat (- 1 :: 64 word) = 18446744073709551615"
  by (simp add: unsigned_minus_1_eq_mask mask_eq_exp_minus_1)

lemma word_of_bytes_bit:
  "bit (word_of_bytes bs :: 'a::len word) n \<longleftrightarrow>
     n < LENGTH('a) \<and> n div 8 < length bs \<and> bit (bs ! (n div 8)) (n mod 8)"
proof (induction bs arbitrary: n)
  case Nil
  then show ?case by (simp add: word_of_bytes_def)
next
  case (Cons b bs)
  have step: "word_of_bytes (b # bs) = (ucast b OR push_bit 8 (word_of_bytes bs) :: 'a word)"
    by (simp add: word_of_bytes_def)
  show ?case
  proof (cases "n < 8")
    case True
    then show ?thesis
      by (auto simp add: step bit_simps Cons.IH dest: bit_imp_le_length)
  next
    case False
    then have "n div 8 = Suc ((n - 8) div 8)" "(n - 8) mod 8 = n mod 8"
      by (simp_all add: le_div_geq le_mod_geq)
    with False show ?thesis
      by (auto simp add: step bit_simps Cons.IH dest: bit_imp_le_length)
  qed
qed

lemma nth8: "i < 8 \<Longrightarrow> [f 0, f 1, f 2, f 3, f 4, f 5, f 6, f (7::64 word)] ! i = f (of_nat i)"
  by (auto simp add: nth_Cons less_Suc_eq numeral_eq_Suc split: nat.splits)

lemma nth4: "i < 4 \<Longrightarrow> [f 0, f 1, f 2, f (3::64 word)] ! i = f (of_nat i)"
  by (auto simp add: nth_Cons less_Suc_eq numeral_eq_Suc split: nat.splits)

lemma load64_bit:
  "bit (load64 m a) n \<longleftrightarrow> n < 64 \<and> bit (m (a + of_nat (n div 8))) (n mod 8)"
proof (cases "n < 64")
  case True
  then have *: "n div 8 < 8" by simp
  from nth8 [OF *, of "\<lambda>i. m (a + i)"] * True show ?thesis
    by (simp add: load64_def word_of_bytes_bit)
next
  case False
  then show ?thesis by (simp add: load64_def word_of_bytes_bit)
qed

lemma load32_bit:
  "bit (load32 m a) n \<longleftrightarrow> n < 32 \<and> bit (m (a + of_nat (n div 8))) (n mod 8)"
proof (cases "n < 32")
  case True
  then have *: "n div 8 < 4" by simp
  from nth4 [OF *, of "\<lambda>i. m (a + i)"] * True show ?thesis
    by (simp add: load32_def word_of_bytes_bit)
next
  case False
  then show ?thesis by (simp add: load32_def word_of_bytes_bit)
qed

lemma load_store64_same: "load64 (store64 m a v) a = v"
  apply (rule bit_word_eqI)
  apply (simp add: load64_bit store64_def)
  apply (auto simp add: bit_simps unat_of_nat)
  done

lemma load_store32_same: "load32 (store32 m a v) a = v"
  apply (rule bit_word_eqI)
  apply (simp add: load32_bit store32_def)
  apply (auto simp add: bit_simps unat_of_nat)
  done

lemma load64_cong:
  "(\<And>i. i < 8 \<Longrightarrow> m' (a + of_nat i) = m (a + of_nat i)) \<Longrightarrow> load64 m' a = load64 m a"
  by (rule bit_word_eqI) (simp add: load64_bit)

lemma load32_cong:
  "(\<And>i. i < 4 \<Longrightarrow> m' (a + of_nat i) = m (a + of_nat i)) \<Longrightarrow> load32 m' a = load32 m a"
  by (rule bit_word_eqI) (simp add: load32_bit)

lemma range_apart:
  fixes a b :: "64 word"
  assumes "k \<le> unat (b - a)" "n \<le> unat (a - b)" "i < n"
  shows "k \<le> unat (b + of_nat i - a)"
proof -
  have "a \<noteq> b" using assms by auto
  then have ne: "unat a \<noteq> unat b" by (simp add: word_unat_eq_iff)
  have "unat a < 2 ^ 64" "unat b < 2 ^ 64"
    using unsigned_less [of a] unsigned_less [of b] by simp_all
  with ne have sum: "unat (b - a) + unat (a - b) = 2 ^ 64"
    by (simp add: unat_sub_if_size word_size)
  have eq: "b + of_nat i - a = (b - a) + of_nat i" by simp
  have "unat ((b - a) + of_nat i) = unat (b - a) + i"
    using assms sum by (simp add: unat_word_ariths unat_of_nat)
  then show ?thesis unfolding eq using assms by linarith
qed

lemma store64_other: "8 \<le> unat (x - a) \<Longrightarrow> store64 m a v x = m x"
  by (simp add: store64_def)

lemma store32_other: "4 \<le> unat (x - a) \<Longrightarrow> store32 m a v x = m x"
  by (simp add: store32_def)

lemma memset_other: "unat n \<le> unat (x - p) \<Longrightarrow> memset m p c n x = m x"
  by (simp add: memset_def)

lemma memcpy_other: "unat n \<le> unat (x - d) \<Longrightarrow> memcpy m d src n x = m x"
  by (simp add: memcpy_def)

lemma load64_store64: 
  "8 \<le> unat (b - a) \<Longrightarrow> 8 \<le> unat (a - b) \<Longrightarrow> load64 (store64 m a v) b = load64 m b"
  by (rule load64_cong) (simp add: store64_other range_apart)

lemma load64_store32: 
  "4 \<le> unat (b - a) \<Longrightarrow> 8 \<le> unat (a - b) \<Longrightarrow> load64 (store32 m a v) b = load64 m b"
  by (rule load64_cong) (simp add: store32_other range_apart)

lemma load32_store64: 
  "8 \<le> unat (b - a) \<Longrightarrow> 4 \<le> unat (a - b) \<Longrightarrow> load32 (store64 m a v) b = load32 m b"
  by (rule load32_cong) (simp add: store64_other range_apart)

lemma load32_store32: 
  "4 \<le> unat (b - a) \<Longrightarrow> 4 \<le> unat (a - b) \<Longrightarrow> load32 (store32 m a v) b = load32 m b"
  by (rule load32_cong) (simp add: store32_other range_apart)

lemma load64_memset: 
  "unat n \<le> unat (b - p) \<Longrightarrow> 8 \<le> unat (p - b) \<Longrightarrow> load64 (memset m p c n) b = load64 m b"
  by (rule load64_cong) (simp add: memset_other range_apart)

lemma load32_memset: 
  "unat n \<le> unat (b - p) \<Longrightarrow> 4 \<le> unat (p - b) \<Longrightarrow> load32 (memset m p c n) b = load32 m b"
  by (rule load32_cong) (simp add: memset_other range_apart)

lemma load64_memcpy: 
  "unat n \<le> unat (b - d) \<Longrightarrow> 8 \<le> unat (d - b) \<Longrightarrow> load64 (memcpy m d src n) b = load64 m b"
  by (rule load64_cong) (simp add: memcpy_other range_apart)

lemma load32_memcpy: 
  "unat n \<le> unat (b - d) \<Longrightarrow> 4 \<le> unat (d - b) \<Longrightarrow> load32 (memcpy m d src n) b = load32 m b"
  by (rule load32_cong) (simp add: memcpy_other range_apart)

lemma store64_inside: "unat (x - a) < 8 \<Longrightarrow> store64 m a v x = ucast (drop_bit (8 * unat (x - a)) v)"
  by (simp add: store64_def)

lemma store32_inside: "unat (x - a) < 4 \<Longrightarrow> store32 m a v x = ucast (drop_bit (8 * unat (x - a)) v)"
  by (simp add: store32_def)

lemma memset_inside: "unat (x - p) < unat n \<Longrightarrow> memset m p c n x = c"
  by (simp add: memset_def)

lemma memcpy_inside: "unat (x - d) < unat n \<Longrightarrow> memcpy m d src n x = m (src + (x - d))"
  by (simp add: memcpy_def)

lemma range_inside:
  fixes b p :: "64 word"
  assumes "unat (b - p) + k \<le> n" "i < k"
  shows "unat (b + of_nat i - p) < n"
proof -
  have eq: "b + of_nat i - p = (b - p) + of_nat i" by simp
  have "unat ((b - p) + of_nat i) \<le> unat (b - p) + unat (of_nat i :: 64 word)"
    by (simp add: unat_word_ariths)
  also have "\<dots> \<le> unat (b - p) + i"
    by (simp add: unat_of_nat)
  finally show ?thesis unfolding eq using assms by linarith
qed

lemma load64_memset_inside:
  "unat (b - p) + 8 \<le> unat n \<Longrightarrow>
   load64 (memset m p c n) b = word_of_bytes [c, c, c, c, c, c, c, c]"
proof -
  assume a: "unat (b - p) + 8 \<le> unat n"
  have "load64 (memset m p c n) b = load64 (\<lambda>_. c) b"
    by (rule load64_cong) (simp add: memset_inside range_inside [OF a])
  then show ?thesis by (simp add: load64_def)
qed

lemma load32_memset_inside:
  "unat (b - p) + 4 \<le> unat n \<Longrightarrow>
   load32 (memset m p c n) b = word_of_bytes [c, c, c, c]"
proof -
  assume a: "unat (b - p) + 4 \<le> unat n"
  have "load32 (memset m p c n) b = load32 (\<lambda>_. c) b"
    by (rule load32_cong) (simp add: memset_inside range_inside [OF a])
  then show ?thesis by (simp add: load32_def)
qed

lemma word_of_bytes_zero [simp]:
  "word_of_bytes [0, 0, 0, 0, 0, 0, 0, 0] = 0" "word_of_bytes [0, 0, 0, 0] = 0"
  by (simp_all add: word_of_bytes_def)

lemma load64_zero [simp]: "load64 (\<lambda>_. 0) a = 0"
  by (simp add: load64_def word_of_bytes_def)

lemma load32_zero [simp]: "load32 (\<lambda>_. 0) a = 0"
  by (simp add: load32_def word_of_bytes_def)

lemma fill_inside: "unat (x - p) < unat n \<Longrightarrow> fill m p f n x = f (unat (x - p))"
  by (simp add: fill_def)

lemma fill_other: "unat n \<le> unat (x - p) \<Longrightarrow> fill m p f n x = m x"
  by (simp add: fill_def)

lemmas bytes = store64_inside store32_inside memset_inside memcpy_inside fill_inside
  store64_other store32_other memset_other memcpy_other fill_other

section \<open>Disjoint byte ranges\<close>

lemma apart_sym: "apart a n b k \<longleftrightarrow> apart b k a n"
  by (auto simp add: apart_def)

lemma apart_sub:
  assumes "apart a n b k" and "i + l \<le> n" and "0 < l"
  shows "apart (a + of_nat i) l b k"
proof -
  from assms have ab: "k \<le> unat (a - b)" and ba: "n \<le> unat (b - a)" and i: "i < n"
    by (auto simp add: apart_def)
  have 1: "k \<le> unat (a + of_nat i - b)"
    by (rule range_apart [OF ab ba i])
  have "i < 2 ^ 64"
    using i ba unsigned_less [of "b - a", where ?'a = nat] by simp
  then have ui: "unat (of_nat i :: 64 word) = i"
    by (simp add: unat_of_nat)
  have eq: "b - (a + of_nat i) = (b - a) - of_nat i" by simp
  have "unat ((b - a) - of_nat i) = unat (b - a) - i"
    using ui i ba by (simp add: unat_sub word_le_nat_alt)
  then have 2: "l \<le> unat (b - (a + of_nat i))"
    unfolding eq using assms(2) ba by linarith
  from 1 2 show ?thesis by (simp add: apart_def)
qed

lemma apartI:
  assumes "unat x + n \<le> unat y \<or> unat y + k \<le> unat x"
    and "0 < n" and "0 < k" and "unat x + n \<le> 2 ^ 64" and "unat y + k \<le> 2 ^ 64"
  shows "apart x n y k"
proof -
  have bx: "unat x < 2 ^ 64" and bnd: "unat y < 2 ^ 64"
    using unsigned_less [of x, where ?'a = nat] unsigned_less [of y, where ?'a = nat] by simp_all
  from assms(1) show ?thesis
  proof
    assume "unat x + n \<le> unat y"
    with assms bx bnd show ?thesis
      unfolding apart_def unat_sub_if_size word_size by simp linarith
  next
    assume "unat y + k \<le> unat x"
    with assms bx bnd show ?thesis
      unfolding apart_def unat_sub_if_size word_size by simp linarith
  qed
qed

lemma unat_offset:
  fixes a :: "64 word"
  shows "unat a + i < 2 ^ 64 \<Longrightarrow> unat (a + of_nat i) = unat a + i"
  by (simp add: unat_word_ariths unat_of_nat)

lemma apart_shift: "apart (c + x) n (c + y) k \<longleftrightarrow> apart x n y k"
  by (simp add: apart_def)

lemma apart_offsets:
  fixes a :: "64 word"
  assumes "i + n \<le> j \<or> j + k \<le> i" and "0 < n" and "0 < k"
    and "i + n \<le> 2 ^ 64" and "j + k \<le> 2 ^ 64"
  shows "apart (a + of_nat i) n (a + of_nat j) k"
proof -
  have "unat (of_nat i :: 64 word) = i" "unat (of_nat j :: 64 word) = j"
    using assms by (simp_all add: unat_of_nat)
  with assms have "apart (of_nat i :: 64 word) n (of_nat j) k"
    by (intro apartI) simp_all
  then show ?thesis by (simp only: apart_shift)
qed

lemma apart_regions:
  fixes a b :: "64 word"
  assumes "unat a + la \<le> unat b \<or> unat b + lb \<le> unat a"
    and "unat a + la \<le> 2 ^ 64" and "unat b + lb \<le> 2 ^ 64"
    and "i + n \<le> la" and "j + k \<le> lb" and "0 < n" and "0 < k"
  shows "apart (a + of_nat i) n (b + of_nat j) k"
proof -
  have "unat (a + of_nat i) = unat a + i" "unat (b + of_nat j) = unat b + j"
    using assms by (simp_all add: unat_offset)
  with assms show ?thesis
    by (intro apartI) auto
qed

lemma apart_byte:
  assumes "apart b l r k" and "i < l"
  shows "apart (b + of_nat i) 1 r k"
  using assms by (intro apart_sub [where n = l]) simp_all

lemma load64_store64_apart: "apart b 8 a 8 \<Longrightarrow> load64 (store64 m a v) b = load64 m b"
  by (simp add: apart_def load64_store64)

lemma load64_store32_apart: "apart b 8 a 4 \<Longrightarrow> load64 (store32 m a v) b = load64 m b"
  by (simp add: apart_def load64_store32)

lemma load32_store64_apart: "apart b 4 a 8 \<Longrightarrow> load32 (store64 m a v) b = load32 m b"
  by (simp add: apart_def load32_store64)

lemma load32_store32_apart: "apart b 4 a 4 \<Longrightarrow> load32 (store32 m a v) b = load32 m b"
  by (simp add: apart_def load32_store32)

lemmas load_store_apart = load64_store64_apart load64_store32_apart load32_store64_apart
  load32_store32_apart

lemma store64_apart: "apart x 1 a 8 \<Longrightarrow> store64 m a v x = m x"
  by (simp add: apart_def store64_other)

lemma store32_apart: "apart x 1 a 4 \<Longrightarrow> store32 m a v x = m x"
  by (simp add: apart_def store32_other)

lemma memset_apart: "apart x 1 p (unat n) \<Longrightarrow> memset m p c n x = m x"
  by (simp add: apart_def memset_other)

lemma memcpy_apart: "apart x 1 d (unat n) \<Longrightarrow> memcpy m d src n x = m x"
  by (simp add: apart_def memcpy_other)

lemma fill_apart: "apart x 1 p (unat n) \<Longrightarrow> fill m p f n x = m x"
  by (simp add: apart_def fill_other)

lemma header_apart:
  assumes "apart x 1 b 32"
  shows "apart x 1 b 8" "apart x 1 (b + 8) 4" "apart x 1 (b + 16) 8" "apart x 1 (b + 24) 8"
proof -
  from assms have a: "apart b 32 x 1" by (simp add: apart_sym)
  have "apart (b + of_nat 0) 8 x 1" "apart (b + of_nat 8) 4 x 1"
    "apart (b + of_nat 16) 8 x 1" "apart (b + of_nat 24) 8 x 1"
    by (rule apart_sub [OF a]; simp)+
  then show "apart x 1 b 8" "apart x 1 (b + 8) 4" "apart x 1 (b + 16) 8" "apart x 1 (b + 24) 8"
    by (simp_all add: apart_sym)
qed

lemma load64_agree:
  assumes "\<And>x. apart x 1 r k \<Longrightarrow> m' x = m x" and "apart b 8 r k"
  shows "load64 m' b = load64 m b"
proof (rule load64_cong)
  fix i :: nat
  assume "i < 8"
  with assms(2) have "apart (b + of_nat i) 1 r k"
    by (rule apart_byte)
  then show "m' (b + of_nat i) = m (b + of_nat i)"
    by (rule assms(1))
qed

lemma load32_agree:
  assumes "\<And>x. apart x 1 r k \<Longrightarrow> m' x = m x" and "apart b 4 r k"
  shows "load32 m' b = load32 m b"
proof (rule load32_cong)
  fix i :: nat
  assume "i < 4"
  with assms(2) have "apart (b + of_nat i) 1 r k"
    by (rule apart_byte)
  then show "m' (b + of_nat i) = m (b + of_nat i)"
    by (rule assms(1))
qed

lemma load64_fill: "apart b 8 p (unat n) \<Longrightarrow> load64 (fill m p f n) b = load64 m b"
  by (rule load64_agree [OF fill_apart])

lemma load32_fill: "apart b 4 p (unat n) \<Longrightarrow> load32 (fill m p f n) b = load32 m b"
  by (rule load32_agree [OF fill_apart])

lemma load64_memcpy_apart: "apart b 8 d (unat n) \<Longrightarrow> load64 (memcpy m d src n) b = load64 m b"
  by (rule load64_agree [OF memcpy_apart])

lemma load32_memcpy_apart: "apart b 4 d (unat n) \<Longrightarrow> load32 (memcpy m d src n) b = load32 m b"
  by (rule load32_agree [OF memcpy_apart])

lemma load64_memset_apart: "apart b 8 p (unat n) \<Longrightarrow> load64 (memset m p c n) b = load64 m b"
  by (rule load64_agree [OF memset_apart])

lemma load32_memset_apart: "apart b 4 p (unat n) \<Longrightarrow> load32 (memset m p c n) b = load32 m b"
  by (rule load32_agree [OF memset_apart])

lemma apart_sub2:
  assumes "apart a n b k" and "i + l \<le> n" and "0 < l" and "j + l' \<le> k" and "0 < l'"
  shows "apart (a + of_nat i) l (b + of_nat j) l'"
proof -
  from assms(1-3) have "apart (a + of_nat i) l b k"
    by (rule apart_sub)
  then have "apart b k (a + of_nat i) l"
    by (simp add: apart_sym)
  from this assms(4,5) have "apart (b + of_nat j) l' (a + of_nat i) l"
    by (rule apart_sub)
  then show ?thesis
    by (simp add: apart_sym)
qed

lemma fields_apart:
  assumes a: "apart b 32 c 32"
  shows "apart b 8 c 8" "apart b 8 (c + 8) 4" "apart b 8 (c + 16) 8" "apart b 8 (c + 24) 8"
    "apart (b + 8) 4 c 8" "apart (b + 8) 4 (c + 8) 4" "apart (b + 8) 4 (c + 16) 8"
    "apart (b + 8) 4 (c + 24) 8"
    "apart (b + 16) 8 c 8" "apart (b + 16) 8 (c + 8) 4" "apart (b + 16) 8 (c + 16) 8"
    "apart (b + 16) 8 (c + 24) 8"
    "apart (b + 24) 8 c 8" "apart (b + 24) 8 (c + 8) 4" "apart (b + 24) 8 (c + 16) 8"
    "apart (b + 24) 8 (c + 24) 8"
  using apart_sub2 [OF a, of 0 8 0 8] apart_sub2 [OF a, of 0 8 8 4]
    apart_sub2 [OF a, of 0 8 16 8] apart_sub2 [OF a, of 0 8 24 8]
    apart_sub2 [OF a, of 8 4 0 8] apart_sub2 [OF a, of 8 4 8 4]
    apart_sub2 [OF a, of 8 4 16 8] apart_sub2 [OF a, of 8 4 24 8]
    apart_sub2 [OF a, of 16 8 0 8] apart_sub2 [OF a, of 16 8 8 4]
    apart_sub2 [OF a, of 16 8 16 8] apart_sub2 [OF a, of 16 8 24 8]
    apart_sub2 [OF a, of 24 8 0 8] apart_sub2 [OF a, of 24 8 8 4]
    apart_sub2 [OF a, of 24 8 16 8] apart_sub2 [OF a, of 24 8 24 8]
  by simp_all

section \<open>Alignment and page rounding\<close>

lemma page_round:
  fixes x :: "64 word"
  assumes k: "k < 64" and fit: "unat x + 2 ^ k \<le> 2 ^ 64"
  shows "unat x \<le> unat ((x + 2 ^ k - 1) AND NOT (2 ^ k - 1))"
    and "unat ((x + 2 ^ k - 1) AND NOT (2 ^ k - 1)) < unat x + 2 ^ k"
proof -
  define y where "y = x + mask k"
  define r where "r = y AND NOT (mask k)"
  have m: "(2 ^ k - 1 :: 64 word) = mask k"
    by (simp add: mask_eq_decr_exp)
  have um: "unat (mask k :: 64 word) = 2 ^ k - 1"
  proof -
    have "uint (mask k :: 64 word) = 2 ^ k - 1"
      unfolding uint_mask_eq using k by (simp add: min_def mask_eq_exp_minus_1)
    then show ?thesis
      by (simp add: unat_eq_nat_uint nat_diff_distrib nat_power_eq)
  qed
  have uy: "unat y = unat x + (2 ^ k - 1)"
    unfolding y_def using fit um by (simp add: unat_word_ariths)
  have "(y AND NOT (mask k)) AND take_bit k y = 0"
    by (rule bit_word_eqI) (auto simp add: bit_simps)
  then have "(y AND NOT (mask k)) + take_bit k y = (y AND NOT (mask k)) OR take_bit k y"
    by (rule disjunctive_add_eq_or)
  also have "\<dots> = y"
    by (rule bit_word_eqI) (auto simp add: bit_simps)
  finally have sum: "r + take_bit k y = y"
    by (simp add: r_def)
  have ut: "unat (take_bit k y) = unat y mod 2 ^ k"
    unfolding unsigned_take_bit_eq by (rule take_bit_eq_mod)
  have "unat r + unat (take_bit k y) = unat y"
  proof -
    have "r = y - take_bit k y" using sum by (simp add: algebra_simps)
    moreover have "take_bit k y \<le> y"
      by (simp add: word_le_nat_alt ut)
    ultimately have "unat r = unat y - unat (take_bit k y)"
      by (simp add: unat_sub)
    moreover have "unat (take_bit k y) \<le> unat y"
      by (simp add: ut)
    ultimately show ?thesis by simp
  qed
  moreover have "unat y mod 2 ^ k < 2 ^ k" by simp
  ultimately have "unat x \<le> unat r" "unat r < unat x + 2 ^ k"
    using uy ut by linarith+
  then show "unat x \<le> unat ((x + 2 ^ k - 1) AND NOT (2 ^ k - 1))"
    and "unat ((x + 2 ^ k - 1) AND NOT (2 ^ k - 1)) < unat x + 2 ^ k"
    by (simp_all add: r_def y_def m add_diff_eq [symmetric])
qed

lemma align_size_low_bits: "align_size n AND 15 = 0"
  unfolding align_size_def ALIGNMENT_def
  by (rule bit_word_eqI) (auto simp add: bit_simps)

lemma align_size_idem: "align_size (align_size n) = align_size n"
proof -
  have "align_size n + 15 = align_size n OR 15"
    by (rule disjunctive_add_eq_or) (rule align_size_low_bits)
  moreover have "(align_size n OR 15) AND NOT 15 = align_size n AND NOT 15"
    by (rule bit_word_eqI) (auto simp add: bit_simps)
  moreover have "align_size n AND NOT 15 = align_size n"
    unfolding align_size_def ALIGNMENT_def
    by (rule bit_word_eqI) (auto simp add: bit_simps)
  ultimately show ?thesis
    by (simp add: align_size_def [of "align_size n"] ALIGNMENT_def)
qed

lemma align_size_bounds:
  assumes "unat n + 16 \<le> 2 ^ 64"
  shows "unat n \<le> unat (align_size n)" and "unat (align_size n) < unat n + 16"
proof -
  have e: "align_size n = (n + 2 ^ 4 - 1) AND NOT (2 ^ 4 - 1)"
    by (simp add: align_size_def ALIGNMENT_def add.commute)
  have f: "unat n + 2 ^ 4 \<le> 2 ^ 64"
    using assms by simp
  show "unat n \<le> unat (align_size n)"
    unfolding e by (rule page_round(1) [OF _ f]) simp
  have "unat (align_size n) < unat n + 2 ^ 4"
    unfolding e by (rule page_round(2) [OF _ f]) simp
  then show "unat (align_size n) < unat n + 16"
    by simp
qed

lemma mapping_length_ge:
  assumes "k < 64" and "pg = 2 ^ k" and "unat n + 32 + unat pg \<le> 2 ^ 64"
  shows "unat n + 32 \<le> unat (mapping_length pg n)"
    and "unat (mapping_length pg n) < unat n + 32 + unat pg"
proof -
  have "(2::nat) ^ k < 2 ^ 64"
    by (rule power_strict_increasing) (use assms(1) in simp_all)
  then have upg: "unat pg = 2 ^ k"
    unfolding assms(2) by - (rule of_nat_inverse, simp_all)
  have "0 < unat pg"
    by (simp add: upg)
  with assms(3) have "unat n + 32 < 2 ^ 64"
    by linarith
  then have un: "unat (n + 32) = unat n + 32"
    by (simp add: unat_word_ariths)
  have fit: "unat (n + 32) + 2 ^ k \<le> 2 ^ 64"
    using assms(3) un upg by simp
  from page_round [OF assms(1) fit] un upg
  show "unat n + 32 \<le> unat (mapping_length pg n)"
    and "unat (mapping_length pg n) < unat n + 32 + unat pg"
    by (simp_all add: mapping_length_def BLOCK_SIZE_def assms(2))
qed

lemma unat_pow2_le:
  assumes "k \<le> 48" and "pg = (2 ^ k :: 64 word)"
  shows "unat pg \<le> 2 ^ 48" and "k < 64"
proof -
  have le: "(2::nat) ^ k \<le> 2 ^ 48"
    by (rule power_increasing) (use assms(1) in simp_all)
  then have "(2::nat) ^ k < 2 ^ 64"
    by simp
  then have "unat pg = 2 ^ k"
    unfolding assms(2) by - (rule of_nat_inverse, simp_all)
  with le show "unat pg \<le> 2 ^ 48" by simp
  show "k < 64" using assms(1) by simp
qed

section \<open>Effects of the helper functions\<close>

lemmas header_fields = get_size_def get_free_def get_next_def get_prev_def
  set_size_def set_free_def set_next_def set_prev_def

lemmas load_store = load_store64_same load_store32_same load64_store64 load64_store32
  load32_store64 load32_store32 load64_memset load32_memset load64_memcpy load32_memcpy

lemmas constants = ALIGNMENT_def BLOCK_SIZE_def MAP_FAILED_def

lemma extend_heap_failed: "extend_heap pg MAP_FAILED last_block n s = (NULL, s)"
  by (simp add: extend_heap_def)

lemma extend_heap_state:
  assumes "mm \<noteq> MAP_FAILED"
  shows "extend_heap pg mm last_block n s =
    (mm, let s = mmap_anon mm (mapping_length pg n) s;
             s = set_size mm (mapping_length pg n - BLOCK_SIZE) s;
             s = set_free mm 0 s;
             s = set_next mm NULL s;
             s = set_prev mm last_block s
         in if last_block \<noteq> NULL then set_next last_block mm s else s\<lparr>free_list := mm\<rparr>)"
  using assms by (simp add: extend_heap_def mapping_length_def Let_def)

lemma new_header_fields:
  fixes s0 :: state and mm lb nx :: addr and sz :: "64 word" and fr :: "32 word"
  defines "s \<equiv> set_prev mm lb (set_next mm nx (set_free mm fr (set_size mm sz s0)))"
  shows "get_size s mm = sz" "get_free s mm = fr" "get_next s mm = nx" "get_prev s mm = lb"
  by (simp_all add: s_def header_fields load_store)

lemma merge_blocks_noop:
  assumes "get_next s b = NULL \<or> get_free s (get_next s b) = 0"
    and "get_prev s b = NULL \<or> get_free s (get_prev s b) = 0"
  shows "merge_blocks b s = s"
  using assms by (auto simp add: merge_blocks_def Let_def)

lemma find_block_empty: "free_list s = NULL \<Longrightarrow> find_block sz s = Some NULL"
  by (simp add: find_block_def find_block_from.simps)

lemma malloc_zero: "allocator_malloc pg mm 0 s = Some (NULL, s)"
  by (simp add: allocator_malloc_def)

lemma malloc_fails:
  "n \<noteq> 0 \<Longrightarrow> find_block (align_size n) s = Some NULL \<Longrightarrow>
   allocator_malloc pg MAP_FAILED n s = Some (NULL, s)"
  by (simp add: allocator_malloc_def extend_heap_def Let_def)

lemma extend_heap_fields:
  assumes "mm \<noteq> MAP_FAILED"
    and "last_block \<noteq> NULL \<longrightarrow> apart mm 32 (last_block + 16) 8"
    and "s' = snd (extend_heap pg mm last_block n s)"
  shows "fst (extend_heap pg mm last_block n s) = mm
    \<and> get_free s' mm = 0
    \<and> get_size s' mm = mapping_length pg n - BLOCK_SIZE
    \<and> get_next s' mm = NULL
    \<and> get_prev s' mm = last_block
    \<and> (last_block \<noteq> NULL \<longrightarrow> get_next s' last_block = mm \<and> free_list s' = free_list s)
    \<and> (last_block = NULL \<longrightarrow> free_list s' = mm)
    \<and> mmap_log s' = mmap_log s @ [(mm, mapping_length pg n)]
    \<and> ((\<exists>k<64. pg = 2 ^ k) \<and> unat n + 32 + unat pg \<le> 2 ^ 64 \<longrightarrow> n \<le> get_size s' mm)"
proof -
  define s4 where "s4 = set_prev mm last_block (set_next mm NULL (set_free mm 0
    (set_size mm (mapping_length pg n - BLOCK_SIZE) (mmap_anon mm (mapping_length pg n) s))))"
  have s': "s' = (if last_block \<noteq> NULL then set_next last_block mm s4 else s4\<lparr>free_list := mm\<rparr>)"
    using assms(1) by (simp add: assms(3) extend_heap_state s4_def Let_def)
  have f4: "get_size s4 mm = mapping_length pg n - BLOCK_SIZE" "get_free s4 mm = 0"
    "get_next s4 mm = NULL" "get_prev s4 mm = last_block"
    unfolding s4_def by (rule new_header_fields)+
  have l4: "free_list s4 = free_list s" "mmap_log s4 = mmap_log s @ [(mm, mapping_length pg n)]"
    by (simp_all add: s4_def header_fields mmap_anon_def)
  have fields: "get_size s' mm = mapping_length pg n - BLOCK_SIZE \<and> get_free s' mm = 0
    \<and> get_next s' mm = NULL \<and> get_prev s' mm = last_block"
  proof (cases "last_block = NULL")
    case True
    with f4 show ?thesis by (simp add: s' header_fields)
  next
    case False
    with assms(2) have a: "apart mm 32 (last_block + 16) 8" by simp
    have "apart (mm + of_nat 0) 8 (last_block + 16) 8" "apart (mm + of_nat 8) 4 (last_block + 16) 8"
      "apart (mm + of_nat 16) 8 (last_block + 16) 8" "apart (mm + of_nat 24) 8 (last_block + 16) 8"
      by (rule apart_sub [OF a]; simp)+
    then have "apart mm 8 (last_block + 16) 8" "apart (mm + 8) 4 (last_block + 16) 8"
      "apart (mm + 16) 8 (last_block + 16) 8" "apart (mm + 24) 8 (last_block + 16) 8"
      by simp_all
    with False f4 show ?thesis
      by (simp add: s' header_fields load_store_apart)
  qed
  have links: "(last_block \<noteq> NULL \<longrightarrow> get_next s' last_block = mm \<and> free_list s' = free_list s)
    \<and> (last_block = NULL \<longrightarrow> free_list s' = mm)
    \<and> mmap_log s' = mmap_log s @ [(mm, mapping_length pg n)]"
    using l4 by (simp add: s' header_fields load_store)
  have size: "n \<le> mapping_length pg n - BLOCK_SIZE"
    if "\<exists>k<64. pg = 2 ^ k" and fit: "unat n + 32 + unat pg \<le> 2 ^ 64"
  proof -
    from that obtain k where k: "k < 64" "pg = 2 ^ k" by blast
    from mapping_length_ge [OF k fit]
    have ge: "unat n + 32 \<le> unat (mapping_length pg n)" by simp
    then have "(32 :: 64 word) \<le> mapping_length pg n"
      by (simp add: word_le_nat_alt)
    then have "unat (mapping_length pg n - 32) = unat (mapping_length pg n) - 32"
      by (simp add: unat_sub)
    with ge show ?thesis
      by (simp add: word_le_nat_alt BLOCK_SIZE_def)
  qed
  have "fst (extend_heap pg mm last_block n s) = mm"
    using assms(1) by (simp add: extend_heap_state)
  with fields links size show ?thesis by simp
qed

text \<open>Everything needed to run the operations on a concrete state by rewriting.\<close>

lemmas run = allocator_malloc_def allocator_realloc_def allocator_free_def allocator_calloc_def
  allocator_destroy_def find_block_def extend_heap_def split_block_def merge_blocks_def
  get_block_def valid_block_def mmap_anon_def munmap_def initial_state_def align_size_def
  constants header_fields load_store load64_memset_inside load32_memset_inside bytes
  load64_fill load32_fill mapping_length_def apart_def mapped_def disjoint_regions_def
  find_block_from.simps destroy_from.simps Let_def

lemma malloc_16_fresh:
  "allocator_malloc 4096 0x10000 16 (initial_state (\<lambda>_. 0)) =
     Some (0x10020, snd (extend_heap 4096 0x10000 NULL 16 (initial_state (\<lambda>_. 0))))"
  by (simp add: run)

lemma malloc_64_fresh:
  "allocator_malloc 4096 0x10000 64 (initial_state (\<lambda>_. 0)) =
     Some (0x10020, snd (extend_heap 4096 0x10000 NULL 64 (initial_state (\<lambda>_. 0))))"
  by (simp add: run)

section \<open>Header fields of separate blocks\<close>

lemma field_same:
  "get_size (set_size b v s) b = v" "get_free (set_free b w s) b = w"
  "get_next (set_next b v s) b = v" "get_prev (set_prev b v s) b = v"
  by (simp_all add: header_fields load_store)

lemma field_same_block:
  "get_size (set_free b w s) b = get_size s b" "get_size (set_next b v s) b = get_size s b"
  "get_size (set_prev b v s) b = get_size s b"
  "get_free (set_size b v s) b = get_free s b" "get_free (set_next b v s) b = get_free s b"
  "get_free (set_prev b v s) b = get_free s b"
  "get_next (set_size b v s) b = get_next s b" "get_next (set_free b w s) b = get_next s b"
  "get_next (set_prev b v s) b = get_next s b"
  "get_prev (set_size b v s) b = get_prev s b" "get_prev (set_free b w s) b = get_prev s b"
  "get_prev (set_next b v s) b = get_prev s b"
  by (simp_all add: header_fields load_store)

lemma field_other_block:
  assumes "apart b 32 c 32"
  shows "get_size (set_size c v s) b = get_size s b" "get_size (set_free c w s) b = get_size s b"
    "get_size (set_next c v s) b = get_size s b" "get_size (set_prev c v s) b = get_size s b"
    "get_free (set_size c v s) b = get_free s b" "get_free (set_free c w s) b = get_free s b"
    "get_free (set_next c v s) b = get_free s b" "get_free (set_prev c v s) b = get_free s b"
    "get_next (set_size c v s) b = get_next s b" "get_next (set_free c w s) b = get_next s b"
    "get_next (set_next c v s) b = get_next s b" "get_next (set_prev c v s) b = get_next s b"
    "get_prev (set_size c v s) b = get_prev s b" "get_prev (set_free c w s) b = get_prev s b"
    "get_prev (set_next c v s) b = get_prev s b" "get_prev (set_prev c v s) b = get_prev s b"
  using fields_apart [OF assms]
  by (simp_all add: header_fields load_store_apart)

lemma field_mem:
  assumes "apart x 1 c 32"
  shows "mem (set_size c v s) x = mem s x" "mem (set_free c w s) x = mem s x"
    "mem (set_next c v s) x = mem s x" "mem (set_prev c v s) x = mem s x"
  using header_apart [OF assms]
  by (simp_all add: header_fields store64_apart store32_apart)

lemma field_free_list:
  "free_list (set_size c v s) = free_list s" "free_list (set_free c w s) = free_list s"
  "free_list (set_next c v s) = free_list s" "free_list (set_prev c v s) = free_list s"
  by (simp_all add: header_fields)

lemma field_list_head:
  "get_size (s\<lparr>free_list := v\<rparr>) c = get_size s c" "get_free (s\<lparr>free_list := v\<rparr>) c = get_free s c"
  "get_next (s\<lparr>free_list := v\<rparr>) c = get_next s c" "get_prev (s\<lparr>free_list := v\<rparr>) c = get_prev s c"
  by (simp_all add: header_fields)

lemmas fields = field_same field_same_block field_other_block field_free_list

lemma split_block_size: "get_size (split_block b sz s) b = sz"
  by (simp add: split_block_def Let_def fields)

text \<open>What the first-fit search returns, if it returns: null, or a free block that is large enough.\<close>

lemma find_block_from_hit:
  assumes "find_block_from s sz cur = Some b" and "b \<noteq> NULL"
  shows "get_free s b \<noteq> 0 \<and> sz \<le> get_size s b"
proof -
  have "b \<noteq> NULL \<longrightarrow> get_free s b \<noteq> 0 \<and> sz \<le> get_size s b"
    by (rule find_block_from.raw_induct
          [where P = "\<lambda>s sz cur b. b \<noteq> NULL \<longrightarrow> get_free s b \<noteq> 0 \<and> sz \<le> get_size s b",
            OF _ assms(1)])
       (auto split: if_splits)
  with assms(2) show ?thesis by simp
qed

text \<open>
  The block behind a pointer that \<^verbatim>\<open>allocator_malloc\<close> returns records at least the requested
  size, when neither \<^verbatim>\<open>align_size\<close> nor the page rounding wraps and a new mapping does not
  overlap the \<^verbatim>\<open>next\<close> field of the list head.
\<close>

lemma malloc_capacity:
  assumes m: "allocator_malloc pg mm n s = Some (p, s')" and p: "p \<noteq> NULL"
    and k: "k < 64" "pg = 2 ^ k" and fit: "unat n + 48 + unat pg \<le> 2 ^ 64"
    and sep: "free_list s \<noteq> NULL \<longrightarrow> apart mm 32 (free_list s + 16) 8"
  shows "get_block p \<noteq> NULL \<and> p = get_block p + BLOCK_SIZE \<and> n \<le> get_size s' (get_block p)"
proof -
  define a where "a = align_size n"
  have n0: "n \<noteq> 0"
    using m p by (auto simp add: allocator_malloc_def)
  have "unat n + 16 \<le> 2 ^ 64"
    using fit by linarith
  from align_size_bounds [OF this]
  have a: "unat n \<le> unat a" "unat a < unat n + 16"
    by (simp_all add: a_def)
  then have na: "n \<le> a"
    by (simp add: word_le_nat_alt)
  obtain b where f: "find_block a s = Some b"
    using m n0 by (cases "find_block a s") (auto simp add: allocator_malloc_def a_def Let_def)
  show ?thesis
  proof (cases "b = NULL")
    case False
    from f have "find_block_from s a (free_list s) = Some b"
      by (simp add: find_block_def)
    from find_block_from_hit [OF this False]
    have sz: "a \<le> get_size s b"
      by simp
    have ps: "p = b + BLOCK_SIZE"
      "s' = (if a + BLOCK_SIZE + ALIGNMENT < get_size (set_free b 0 s) b
             then split_block b a (set_free b 0 s) else set_free b 0 s)"
      using m n0 f False
      by (auto simp add: allocator_malloc_def a_def [symmetric] Let_def)
    have "a \<le> get_size s' b"
      using sz by (simp add: ps split_block_size fields)
    with na have "n \<le> get_size s' b"
      by (rule order_trans)
    with False show ?thesis
      by (simp add: ps get_block_def)
  next
    case True
    have mf: "mm \<noteq> MAP_FAILED"
      using m n0 f True p
      by (auto simp add: allocator_malloc_def a_def [symmetric] Let_def extend_heap_failed)
    have ps: "p = mm + BLOCK_SIZE" "s' = snd (extend_heap pg mm (free_list s) a s)" "mm \<noteq> NULL"
      using m n0 f True p mf
      by (auto simp add: allocator_malloc_def a_def [symmetric] Let_def extend_heap_state
          split: if_splits)
    have "unat a + 32 + unat pg \<le> 2 ^ 64"
      using a fit by linarith
    with extend_heap_fields [OF mf sep ps(2)] k
    have "a \<le> get_size s' mm"
      by blast
    with na have "n \<le> get_size s' mm"
      by (rule order_trans)
    with ps(3) show ?thesis
      by (simp add: ps(1) get_block_def)
  qed
qed

section \<open>The heap invariant\<close>


lemma block_end_ge: "unat b + 32 \<le> block_end s b"
  by (simp add: block_end_def)

lemma heap_ok_headers_apart:
  assumes "heap_ok s B cs"
  shows "headers_apart B"
  unfolding headers_apart_def
proof (intro ballI impI)
  fix b c
  assume b: "b \<in> B" and c: "c \<in> B" and ne: "b \<noteq> c"
  from assms b c have e: "block_end s b < 2 ^ 64" "block_end s c < 2 ^ 64"
    by (simp_all add: heap_ok_def)
  from assms b c ne have "block_end s b \<le> unat c \<or> block_end s c \<le> unat b"
    by (simp add: heap_ok_def)
  with block_end_ge [of b s] block_end_ge [of c s]
  have d: "unat b + 32 \<le> unat c \<or> unat c + 32 \<le> unat b"
    by linarith
  from e block_end_ge [of b s] block_end_ge [of c s]
  have "unat b + 32 \<le> 2 ^ 64" "unat c + 32 \<le> 2 ^ 64"
    by linarith+
  with d show "apart b 32 c 32"
    by (intro apartI) simp_all
qed


text \<open>
  Reading one header field after writing another, for blocks of a set whose headers do not
  overlap.
\<close>

lemma block_fields:
  assumes "headers_apart B" and "b \<in> B" and "c \<in> B"
  shows "get_size (set_size c v s) b = (if b = c then v else get_size s b)"
    "get_size (set_free c w s) b = get_size s b"
    "get_size (set_next c v s) b = get_size s b"
    "get_size (set_prev c v s) b = get_size s b"
    "get_free (set_size c v s) b = get_free s b"
    "get_free (set_free c w s) b = (if b = c then w else get_free s b)"
    "get_free (set_next c v s) b = get_free s b"
    "get_free (set_prev c v s) b = get_free s b"
    "get_next (set_size c v s) b = get_next s b"
    "get_next (set_free c w s) b = get_next s b"
    "get_next (set_next c v s) b = (if b = c then v else get_next s b)"
    "get_next (set_prev c v s) b = get_next s b"
    "get_prev (set_size c v s) b = get_prev s b"
    "get_prev (set_free c w s) b = get_prev s b"
    "get_prev (set_next c v s) b = get_prev s b"
    "get_prev (set_prev c v s) b = (if b = c then v else get_prev s b)"
proof -
  have "b = c \<or> apart b 32 c 32"
    using assms by (auto simp add: headers_apart_def)
  then show "get_size (set_size c v s) b = (if b = c then v else get_size s b)"
    "get_size (set_free c w s) b = get_size s b"
    "get_size (set_next c v s) b = get_size s b"
    "get_size (set_prev c v s) b = get_size s b"
    "get_free (set_size c v s) b = get_free s b"
    "get_free (set_free c w s) b = (if b = c then w else get_free s b)"
    "get_free (set_next c v s) b = get_free s b"
    "get_free (set_prev c v s) b = get_free s b"
    "get_next (set_size c v s) b = get_next s b"
    "get_next (set_free c w s) b = get_next s b"
    "get_next (set_next c v s) b = (if b = c then v else get_next s b)"
    "get_next (set_prev c v s) b = get_next s b"
    "get_prev (set_size c v s) b = get_prev s b"
    "get_prev (set_free c w s) b = get_prev s b"
    "get_prev (set_next c v s) b = get_prev s b"
    "get_prev (set_prev c v s) b = (if b = c then v else get_prev s b)"
    by (auto simp add: fields)
qed

lemma block_mem:
  assumes "outside B x" and "c \<in> B"
  shows "mem (set_size c v s) x = mem s x" "mem (set_free c w s) x = mem s x"
    "mem (set_next c v s) x = mem s x" "mem (set_prev c v s) x = mem s x"
proof -
  from assms have "apart x 1 c 32"
    by (simp add: outside_def)
  then show "mem (set_size c v s) x = mem s x" "mem (set_free c w s) x = mem s x"
    "mem (set_next c v s) x = mem s x" "mem (set_prev c v s) x = mem s x"
    by (rule field_mem)+
qed

lemma outside_mono: "outside B' x \<Longrightarrow> B \<subseteq> B' \<Longrightarrow> outside B x"
  by (auto simp add: outside_def)


lemma block_path_cong:
  assumes "\<And>c. c \<in> set cs \<Longrightarrow> get_next s' c = get_next s c"
  shows "block_path s' p cs = block_path s p cs"
  using assms by (induction cs arbitrary: p) simp_all

lemma heap_ok_cong:
  assumes "heap_ok s B cs" and "free_list s' = free_list s"
    and "\<And>c. c \<in> B \<Longrightarrow> get_size s' c = get_size s c \<and> get_next s' c = get_next s c
            \<and> get_prev s' c = get_prev s c"
  shows "heap_ok s' B cs"
proof -
  have e: "block_end s' c = block_end s c" if "c \<in> B" for c
    using assms(3) [OF that] by (simp add: block_end_def)
  have "block_path s' (free_list s') cs = block_path s (free_list s) cs"
    unfolding assms(2) using assms(1,3) by (intro block_path_cong) (auto simp add: heap_ok_def)
  with assms(1) e assms(3) show ?thesis
    by (simp add: heap_ok_def)
qed

text \<open>On a heap that satisfies the invariant the first-fit search returns.\<close>

lemma find_block_path:
  assumes "block_path s p cs"
  shows "\<exists>r. find_block_from s sz p = Some r \<and> (r = NULL \<or> r \<in> set cs)"
  using assms
proof (induction cs arbitrary: p)
  case Nil
  then show ?case by (simp add: find_block_from.simps)
next
  case (Cons c cs)
  then have p: "p = c" "c \<noteq> NULL" and "block_path s (get_next s c) cs"
    by simp_all
  from Cons.IH [OF this(3)] obtain r
    where r: "find_block_from s sz (get_next s c) = Some r" "r = NULL \<or> r \<in> set cs"
    by blast
  show ?case
  proof (cases "get_free s c \<noteq> 0 \<and> sz \<le> get_size s c")
    case True
    with p have "find_block_from s sz p = Some c"
      by (simp add: find_block_from.simps)
    then show ?thesis by simp
  next
    case False
    with p r have "find_block_from s sz p = Some r"
      by (subst find_block_from.simps) auto
    with r(2) show ?thesis by auto
  qed
qed

lemma find_block_ok:
  assumes "heap_ok s B cs"
  shows "\<exists>r. find_block sz s = Some r
    \<and> (r = NULL \<or> r \<in> set cs \<and> get_free s r \<noteq> 0 \<and> sz \<le> get_size s r)"
proof -
  from assms have "block_path s (free_list s) cs"
    by (simp add: heap_ok_def)
  from find_block_path [OF this, of sz] obtain r
    where r: "find_block_from s sz (free_list s) = Some r" "r = NULL \<or> r \<in> set cs"
    by blast
  with find_block_from_hit [OF r(1)] show ?thesis
    by (auto simp add: find_block_def)
qed

text \<open>Where the bytes of a payload lie, and what writing them leaves as it is.\<close>

lemma payload_apart_header:
  assumes ok: "heap_ok s B cs" and b: "b \<in> B" and c: "c \<in> B"
    and l: "i + l \<le> unat (get_size s b)" and l0: "0 < l"
  shows "apart (b + 32 + of_nat i) l c 32"
proof -
  from ok b have e: "unat b + (32 + unat (get_size s b)) < 2 ^ 64"
    by (simp add: heap_ok_def block_end_def)
  have eq: "b + 32 + of_nat i = b + of_nat (32 + i)"
    by simp
  show ?thesis
  proof (cases "c = b")
    case True
    have "apart (b + of_nat (32 + i)) l (b + of_nat 0) 32"
      by (rule apart_offsets) (use e l l0 in simp_all)
    then show ?thesis
      unfolding eq True by simp
  next
    case False
    from ok c have ec: "unat c + (32 + unat (get_size s c)) < 2 ^ 64"
      by (simp add: heap_ok_def block_end_def)
    from ok b c False
    have "unat b + (32 + unat (get_size s b)) \<le> unat c
        \<or> unat c + (32 + unat (get_size s c)) \<le> unat b"
      by (simp add: heap_ok_def block_end_def add.assoc)
    then have "apart (b + of_nat (32 + i)) l (c + of_nat 0) 32"
      by (rule apart_regions) (use e ec l l0 in simp_all)
    then show ?thesis
      unfolding eq by simp
  qed
qed




lemma payload_write:
  assumes ok: "heap_ok s B cs" and b: "b \<in> B" and l: "l \<le> unat (get_size s b)" and l0: "0 < l"
    and ag: "\<forall>x. apart x 1 (b + 32) l \<longrightarrow> m' x = mem s x"
  shows "heap_ok (s\<lparr>mem := m'\<rparr>) B cs"
    and "\<And>c. c \<in> B \<Longrightarrow> get_size (s\<lparr>mem := m'\<rparr>) c = get_size s c
          \<and> get_free (s\<lparr>mem := m'\<rparr>) c = get_free s c
          \<and> get_next (s\<lparr>mem := m'\<rparr>) c = get_next s c
          \<and> get_prev (s\<lparr>mem := m'\<rparr>) c = get_prev s c"
proof -
  from ag have m': "\<And>x. apart x 1 (b + 32) l \<Longrightarrow> m' x = mem s x"
    by simp
  show f: "get_size (s\<lparr>mem := m'\<rparr>) c = get_size s c
          \<and> get_free (s\<lparr>mem := m'\<rparr>) c = get_free s c
          \<and> get_next (s\<lparr>mem := m'\<rparr>) c = get_next s c
          \<and> get_prev (s\<lparr>mem := m'\<rparr>) c = get_prev s c" if c: "c \<in> B" for c
  proof -
    from payload_apart_header [OF ok b c, of 0 l] l l0
    have "apart (b + 32) l c 32"
      by simp
    then have a: "apart c 32 (b + 32) l"
      by (simp add: apart_sym)
    have "apart (c + of_nat 0) 8 (b + 32) l" "apart (c + of_nat 8) 4 (b + 32) l"
      "apart (c + of_nat 16) 8 (b + 32) l" "apart (c + of_nat 24) 8 (b + 32) l"
      by (rule apart_sub [OF a]; simp)+
    then have "apart c 8 (b + 32) l" "apart (c + 8) 4 (b + 32) l"
      "apart (c + 16) 8 (b + 32) l" "apart (c + 24) 8 (b + 32) l"
      by simp_all
    then have "load64 m' c = load64 (mem s) c" "load32 m' (c + 8) = load32 (mem s) (c + 8)"
      "load64 m' (c + 16) = load64 (mem s) (c + 16)" "load64 m' (c + 24) = load64 (mem s) (c + 24)"
      by (auto intro: load64_agree [OF m'] load32_agree [OF m'])
    then show ?thesis
      by (simp add: header_fields)
  qed
  show "heap_ok (s\<lparr>mem := m'\<rparr>) B cs"
    by (rule heap_ok_cong [OF ok]) (use f in simp_all)
qed

subsection \<open>Splitting a block\<close>

lemma set_insert_after: "set (insert_after r n cs) \<subseteq> insert n (set cs)"
  by (induction cs) auto

lemma set_insert_after_old: "set cs \<subseteq> set (insert_after r n cs)"
  by (induction cs) auto

lemma distinct_insert_after: "distinct cs \<Longrightarrow> n \<notin> set cs \<Longrightarrow> distinct (insert_after r n cs)"
proof (induction cs)
  case Nil
  then show ?case by simp
next
  case (Cons c cs)
  with set_insert_after [of r n cs] show ?case by auto
qed

lemma block_path_insert:
  assumes "block_path s p cs" and "distinct cs" and "n \<notin> set cs" and "n \<noteq> NULL"
    and "get_next s' r = n" and "get_next s' n = get_next s r"
    and "\<And>c. c \<in> set cs \<Longrightarrow> c \<noteq> r \<Longrightarrow> get_next s' c = get_next s c"
  shows "block_path s' p (insert_after r n cs)"
  using assms(1,2,3,7)
proof (induction cs arbitrary: p)
  case Nil
  then show ?case by simp
next
  case (Cons c cs)
  show ?case
  proof (cases "c = r")
    case True
    with Cons.prems have "r \<notin> set cs" and p: "p = r" "r \<noteq> NULL"
      and path: "block_path s (get_next s r) cs"
      by simp_all
    have "block_path s' (get_next s r) cs = block_path s (get_next s r) cs"
      by (rule block_path_cong) (use Cons.prems(4) \<open>r \<notin> set cs\<close> in auto)
    with path p assms(4,5,6) True show ?thesis
      by simp
  next
    case False
    with Cons.prems have p: "p = c" "c \<noteq> NULL" and path: "block_path s (get_next s c) cs"
      and d: "distinct cs" "n \<notin> set cs"
      by simp_all
    have nx: "get_next s' c = get_next s c"
      using Cons.prems(4) [of c] False by simp
    have "block_path s' (get_next s c) (insert_after r n cs)"
      by (rule Cons.IH [OF path d]) (use Cons.prems(4) in simp)
    with p nx False show ?thesis
      by simp
  qed
qed

text \<open>
  \<^verbatim>\<open>split_block\<close> keeps the invariant, with the remainder as a new block behind the block
  that is split, and writes to headers only.
\<close>

lemma split_block_ok:
  assumes ok: "heap_ok s B cs" and r: "r \<in> B" and a: "unat a + 48 < unat (get_size s r)"
    and R: "R = r + BLOCK_SIZE + a" and s': "s' = split_block r a s"
  shows "heap_ok s' (insert R B) (insert_after r R cs)"
    and "R \<notin> B"
    and "get_size s' r = a \<and> get_size s' R = get_size s r - a - BLOCK_SIZE \<and> get_free s' R = 1"
    and "\<And>c. c \<in> B \<Longrightarrow> get_free s' c = get_free s c \<and> (c \<noteq> r \<longrightarrow> get_size s' c = get_size s c)"
    and "block_end s' R = block_end s r \<and> block_end s' r = unat R"
    and "\<And>x. outside (insert R B) x \<Longrightarrow> mem s' x = mem s x"
    and "free_list s' = free_list s"
proof -
  define S where "S = get_size s r"
  define nx where "nx = get_next s r"
  define B' where "B' = insert R B"
  from ok r have e: "unat r + 32 + unat S < 2 ^ 64"
    by (simp add: heap_ok_def block_end_def S_def)
  have a': "unat a + 48 < unat S"
    using a by (simp add: S_def)
  have Ra: "R = r + 32 + of_nat (unat a)"
    by (simp add: R BLOCK_SIZE_def)
  have uR: "unat R = unat r + 32 + unat a"
  proof -
    have "R = r + of_nat (32 + unat a)"
      by (simp add: R BLOCK_SIZE_def)
    moreover have "unat r + (32 + unat a) < 2 ^ 64"
      using e a' by linarith
    then have "unat (r + of_nat (32 + unat a)) = unat r + (32 + unat a)"
      by (rule unat_offset)
    ultimately show ?thesis
      by (simp only: add.assoc)
  qed
  have RB: "apart R 32 c 32" if "c \<in> B" for c
    unfolding Ra using ok r that
    by (rule payload_apart_header) (use a in simp_all)
  show RnB: "R \<notin> B"
  proof
    assume "R \<in> B"
    from RB [OF this] show False
      by (simp add: apart_def)
  qed
  have R0: "R \<noteq> NULL"
    using uR by (auto simp add: unat_eq_zero)
  from ok have n0: "NULL \<notin> B"
    by (simp add: heap_ok_def)
  have sepB: "headers_apart B"
    using ok by (rule heap_ok_headers_apart)
  have sep: "headers_apart B'"
    using sepB RB by (auto simp add: headers_apart_def B'_def apart_sym)
  note bf = block_fields [OF sep]
  have rB': "r \<in> B'" and RB': "R \<in> B'" and sub: "\<And>c. c \<in> B \<Longrightarrow> c \<in> B'"
    using r by (simp_all add: B'_def)
  have Rr: "R \<noteq> r"
    using RnB r by auto
  from ok r have nxB: "nx = NULL \<or> nx \<in> B"
    by (auto simp add: heap_ok_def nx_def)
  have nxR: "nx \<noteq> R"
    using nxB RnB R0 by auto
  have uS: "unat (S - a - 32) = unat S - unat a - 32"
  proof -
    have "a \<le> S"
      using a by (simp add: word_le_nat_alt S_def)
    then have 1: "unat (S - a) = unat S - unat a"
      by (simp add: unat_sub)
    then have "32 \<le> S - a"
      using a by (simp add: word_le_nat_alt S_def)
    then have "unat (S - a - 32) = unat (S - a) - 32"
      by (simp add: unat_sub)
    with 1 show ?thesis by simp
  qed
  have all: "get_size s' c = (if c = r then a else if c = R then S - a - BLOCK_SIZE else get_size s c)
        \<and> get_free s' c = (if c = R then 1 else get_free s c)
        \<and> get_next s' c = (if c = r then R else if c = R then nx else get_next s c)
        \<and> get_prev s' c = (if nx \<noteq> NULL \<and> c = nx then R else if c = R then r else get_prev s c)"
    if c: "c \<in> B'" for c
  proof (cases "nx = NULL")
    case True
    then have "get_next s r = NULL"
      by (simp add: nx_def)
    with c rB' RB' Rr True show ?thesis
      by (simp add: s' split_block_def Let_def R [symmetric] bf S_def)
  next
    case False
    with nxB have "nx \<in> B'" and "get_next s r \<noteq> NULL" and "get_next s r \<in> B'"
      by (simp_all add: B'_def nx_def)
    with c rB' RB' Rr nxR show ?thesis
      by (simp add: s' split_block_def Let_def R [symmetric] bf S_def nx_def)
  qed
  have size: "get_size s' c = (if c = r then a else if c = R then S - a - BLOCK_SIZE else get_size s c)"
    and free: "get_free s' c = (if c = R then 1 else get_free s c)"
    and nxt: "get_next s' c = (if c = r then R else if c = R then nx else get_next s c)"
    and prv: "get_prev s' c = (if nx \<noteq> NULL \<and> c = nx then R else if c = R then r else get_prev s c)"
    if c: "c \<in> B'" for c
    using all [OF c] by simp_all
  show fl: "free_list s' = free_list s"
    by (simp add: s' split_block_def Let_def field_free_list)
  show "get_size s' r = a \<and> get_size s' R = get_size s r - a - BLOCK_SIZE \<and> get_free s' R = 1"
    using size [OF rB'] size [OF RB'] free [OF RB'] Rr by (simp add: S_def)
  show "get_free s' c = get_free s c \<and> (c \<noteq> r \<longrightarrow> get_size s' c = get_size s c)" if "c \<in> B" for c
    using size [OF sub [OF that]] free [OF sub [OF that]] that RnB by auto
  have eR: "block_end s' R = block_end s r"
    using size [OF RB'] Rr uR uS a' by (simp add: block_end_def S_def BLOCK_SIZE_def)
  have er: "block_end s' r = unat R"
    using size [OF rB'] uR by (simp add: block_end_def)
  from eR er show "block_end s' R = block_end s r \<and> block_end s' r = unat R" ..
  have eo: "block_end s' c = block_end s c" if "c \<in> B" "c \<noteq> r" for c
    using size [OF sub [OF that(1)]] that RnB by (auto simp add: block_end_def)
  show "mem s' x = mem s x" if "outside (insert R B) x" for x
  proof -
    from that have o: "outside B' x"
      by (simp add: B'_def)
    note bm = block_mem [OF o]
    show ?thesis
    proof (cases "nx = NULL")
      case True
      then have "get_next s r = NULL"
        by (simp add: nx_def)
      with rB' RB' Rr show ?thesis
        by (simp add: s' split_block_def Let_def R [symmetric] bf bm)
    next
      case False
      with nxB have "get_next s r \<noteq> NULL" and "get_next s r \<in> B'"
        by (simp_all add: B'_def nx_def)
      with rB' RB' Rr show ?thesis
        by (simp add: s' split_block_def Let_def R [symmetric] bf bm)
    qed
  qed
  show "heap_ok s' (insert R B) (insert_after r R cs)"
    unfolding heap_ok_def
  proof (intro conjI ballI impI)
    show "NULL \<notin> insert R B"
      using n0 R0 by simp
  next
    fix c assume c: "c \<in> insert R B"
    then have c': "c \<in> B'" by (simp add: B'_def)
    have "block_end s c < 2 ^ 64" if "c \<in> B"
      using ok that by (simp add: heap_ok_def)
    with c eR er eo e uR a show "block_end s' c < 2 ^ 64"
      by (cases "c = r"; cases "c = R") (auto simp add: S_def block_end_def)
    have cl: "get_next s c \<in> insert NULL B \<and> get_prev s c \<in> insert NULL B
        \<and> get_next s c \<noteq> c \<and> get_prev s c \<noteq> c" if "c \<in> B"
      using ok that by (simp add: heap_ok_def)
    from c cl nxB show "get_next s' c \<in> insert NULL (insert R B)"
      unfolding nxt [OF c'] by auto
    from c cl r show "get_prev s' c \<in> insert NULL (insert R B)"
      unfolding prv [OF c'] by auto
    from c cl Rr nxR show "get_next s' c \<noteq> c"
      unfolding nxt [OF c'] by auto
    from c cl Rr nxR show "get_prev s' c \<noteq> c"
      unfolding prv [OF c'] by auto
  next
    fix b c assume b: "b \<in> insert R B" and c: "c \<in> insert R B" and ne: "b \<noteq> c"
    have d: "block_end s x \<le> unat y \<or> block_end s y \<le> unat x" if "x \<in> B" "y \<in> B" "x \<noteq> y" for x y
      using ok that by (simp add: heap_ok_def)
    have inR: "unat r \<le> unat R" "block_end s' R = block_end s r" "block_end s' r \<le> block_end s r"
      using uR eR er a by (simp_all add: block_end_def S_def)
    have lo: "unat x + 32 \<le> block_end s x" for x
      by (rule block_end_ge)
    have rR: "block_end s' r \<le> unat R"
      using er by simp
    have other: "block_end s' R \<le> unat y \<or> block_end s' y \<le> unat R"
      "block_end s' r \<le> unat y \<or> block_end s' y \<le> unat r" if "y \<in> B" "y \<noteq> r" for y
      using d [OF r that(1)] that eo [OF that] inR lo [of y] uR by auto
    from b c ne show "block_end s' b \<le> unat c \<or> block_end s' c \<le> unat b"
    proof (cases "b = R"; cases "c = R"; cases "b = r"; cases "c = r")
    qed (use rR other d eo in auto)
  next
    show "set (insert_after r R cs) \<subseteq> insert R B"
      using set_insert_after [of r R cs] ok by (auto simp add: heap_ok_def)
  next
    from ok have "distinct cs" "set cs \<subseteq> B"
      by (simp_all add: heap_ok_def)
    with RnB show "distinct (insert_after r R cs)"
      by (intro distinct_insert_after) auto
  next
    from ok have path: "block_path s (free_list s) cs" and d: "distinct cs" and sb: "set cs \<subseteq> B"
      by (simp_all add: heap_ok_def)
    have RnC: "R \<notin> set cs"
      using RnB sb by auto
    show "block_path s' (free_list s') (insert_after r R cs)"
      unfolding fl
    proof (rule block_path_insert [OF path d RnC R0])
      show "get_next s' r = R"
        using nxt [OF rB'] by simp
      show "get_next s' R = get_next s r"
        using nxt [OF RB'] Rr by (simp add: nx_def)
      show "get_next s' c = get_next s c" if "c \<in> set cs" "c \<noteq> r" for c
      proof -
        from that sb have "c \<in> B" by auto
        with nxt [OF sub [OF this]] that RnB show ?thesis by auto
      qed
    qed
  qed
qed

subsection \<open>Mapping a new block\<close>

text \<open>
  \<^verbatim>\<open>extend_heap\<close> with the list head as \<^verbatim>\<open>last\<close>, as \<^verbatim>\<open>allocator_malloc\<close> calls it, keeps the
  invariant when the mapping is fresh: the list becomes the head and the new block.
\<close>

lemma extend_heap_ok:
  assumes ok: "heap_ok s B cs" and fr: "fresh s B mm L" and L: "L = mapping_length pg a"
    and L32: "32 \<le> unat L" and s': "s' = snd (extend_heap pg mm (free_list s) a s)"
  shows "heap_ok s' (insert mm B) (case cs of [] \<Rightarrow> [mm] | h # _ \<Rightarrow> [h, mm])"
    and "mm \<notin> B \<and> mm \<noteq> NULL \<and> mm \<noteq> MAP_FAILED"
    and "get_size s' mm = L - BLOCK_SIZE \<and> get_free s' mm = 0"
    and "\<And>c. c \<in> B \<Longrightarrow> get_size s' c = get_size s c \<and> get_free s' c = get_free s c"
    and "block_end s' mm = unat mm + unat L"
    and "\<And>x. outside (insert mm B) x \<Longrightarrow> apart x 1 mm (unat L) \<Longrightarrow> mem s' x = mem s x"
proof -
  define h where "h = free_list s"
  define B' where "B' = insert mm B"
  define s0 where "s0 = mmap_anon mm L s"
  from fr have mp: "0 < unat mm" "unat mm + unat L < 2 ^ 64"
    and dj: "\<And>c. c \<in> B \<Longrightarrow> unat mm + unat L \<le> unat c \<or> block_end s c \<le> unat mm"
    by (simp_all add: fresh_def mapped_def)
  have mm0: "mm \<noteq> NULL"
    using mp(1) by auto
  have mf: "mm \<noteq> MAP_FAILED"
  proof
    assume "mm = MAP_FAILED"
    then have "unat mm = 2 ^ 64 - 1"
      by (simp add: MAP_FAILED_def)
    with mp(2) L32 show False by simp
  qed
  from ok have n0: "NULL \<notin> B" and path: "block_path s (free_list s) cs"
    and sb: "set cs \<subseteq> B" and eB: "\<And>c. c \<in> B \<Longrightarrow> block_end s c < 2 ^ 64"
    by (simp_all add: heap_ok_def)
  have reg: "apart (mm + of_nat i) n (c + of_nat j) k"
    if "c \<in> B" "i + n \<le> unat L" "j + k \<le> 32" "0 < n" "0 < k" for c i n j k
  proof -
    from dj [OF that(1)] have "unat mm + unat L \<le> unat c \<or> unat c + 32 \<le> unat mm"
      using block_end_ge [of c s] by linarith
    moreover have "unat c + 32 \<le> 2 ^ 64"
      using eB [OF that(1)] block_end_ge [of c s] by linarith
    moreover have "unat mm + unat L \<le> 2 ^ 64"
      using mp(2) by simp
    ultimately show ?thesis
      using that by (intro apart_regions) simp_all
  qed
  have hB: "apart mm 32 c 32" if "c \<in> B" for c
    using reg [OF that, of 0 32 0 32] L32 by simp
  have mnB: "mm \<notin> B"
  proof
    assume "mm \<in> B"
    from hB [OF this] show False
      by (simp add: apart_def)
  qed
  from mnB mm0 mf show "mm \<notin> B \<and> mm \<noteq> NULL \<and> mm \<noteq> MAP_FAILED"
    by simp
  have sep: "headers_apart B'"
    using heap_ok_headers_apart [OF ok] hB
    by (auto simp add: headers_apart_def B'_def apart_sym)
  note bf = block_fields [OF sep]
  have mB': "mm \<in> B'" and sub: "\<And>c. c \<in> B \<Longrightarrow> c \<in> B'"
    by (simp_all add: B'_def)
  have hc: "(cs = [] \<and> h = NULL) \<or> (\<exists>t. cs = h # t \<and> h \<in> B)"
    using path sb by (cases cs) (auto simp add: h_def)
  then have hB': "h = NULL \<or> h \<in> B"
    by auto
  have hm: "h \<noteq> mm"
    using hB' mnB mm0 by auto
  have f0: "get_size s0 c = get_size s c \<and> get_free s0 c = get_free s c
      \<and> get_next s0 c = get_next s c \<and> get_prev s0 c = get_prev s c" if c: "c \<in> B" for c
  proof -
    have "apart (c + of_nat 0) 8 (mm + of_nat 0) (unat L)"
      "apart (c + of_nat 8) 4 (mm + of_nat 0) (unat L)"
      "apart (c + of_nat 16) 8 (mm + of_nat 0) (unat L)"
      "apart (c + of_nat 24) 8 (mm + of_nat 0) (unat L)"
      using reg [OF c, of 0 "unat L" 0 8] reg [OF c, of 0 "unat L" 8 4]
        reg [OF c, of 0 "unat L" 16 8] reg [OF c, of 0 "unat L" 24 8] L32
      by (simp_all add: apart_sym)
    then show ?thesis
      by (simp add: s0_def mmap_anon_def header_fields load64_memset_apart load32_memset_apart)
  qed
  have st: "s' = (let s4 = set_prev mm h (set_next mm NULL (set_free mm 0
                    (set_size mm (L - BLOCK_SIZE) s0)))
                  in if h \<noteq> NULL then set_next h mm s4 else s4\<lparr>free_list := mm\<rparr>)"
    using mf by (simp add: s' extend_heap_state Let_def L s0_def h_def)
  have all: "get_size s' c = (if c = mm then L - BLOCK_SIZE else get_size s c)
      \<and> get_free s' c = (if c = mm then 0 else get_free s c)
      \<and> get_next s' c = (if c = mm then NULL else if c = h then mm else get_next s c)
      \<and> get_prev s' c = (if c = mm then h else get_prev s c)" if c: "c \<in> B'" for c
  proof (cases "h = NULL")
    case True
    from c have "c = mm \<or> c \<in> B" by (simp add: B'_def)
    then show ?thesis
    proof
      assume "c = mm"
      with True mB' show ?thesis
        by (simp add: st Let_def bf field_list_head)
    next
      assume cB: "c \<in> B"
      with mnB n0 have "c \<noteq> mm" "c \<noteq> NULL" by auto
      with True mB' c f0 [OF cB] show ?thesis
        by (simp add: st Let_def bf field_list_head)
    qed
  next
    case False
    with hB' have hB: "h \<in> B'" by (simp add: B'_def)
    from c have "c = mm \<or> c \<in> B" by (simp add: B'_def)
    then show ?thesis
    proof
      assume "c = mm"
      with False mB' hB hm show ?thesis
        by (simp add: st Let_def bf)
    next
      assume cB: "c \<in> B"
      with mnB have "c \<noteq> mm" by auto
      with False mB' hB hm c f0 [OF cB] show ?thesis
        by (simp add: st Let_def bf)
    qed
  qed
  show "get_size s' mm = L - BLOCK_SIZE \<and> get_free s' mm = 0"
    using all [OF mB'] by simp
  show "get_size s' c = get_size s c \<and> get_free s' c = get_free s c" if "c \<in> B" for c
    using all [OF sub [OF that]] that mnB by auto
  have uL: "unat (L - 32) = unat L - 32"
    using L32 by (simp add: unat_sub word_le_nat_alt)
  show em: "block_end s' mm = unat mm + unat L"
    using all [OF mB'] uL L32 by (simp add: block_end_def BLOCK_SIZE_def)
  have eo: "block_end s' c = block_end s c" if "c \<in> B" for c
    using all [OF sub [OF that]] that mnB by (auto simp add: block_end_def)
  have fl: "free_list s' = (if h = NULL then mm else h)"
    by (simp add: st Let_def field_free_list h_def s0_def mmap_anon_def)
  show "mem s' x = mem s x" if o: "outside (insert mm B) x" and x: "apart x 1 mm (unat L)" for x
  proof -
    from o have o': "outside B' x" by (simp add: B'_def)
    note bm = block_mem [OF o']
    have "mem s0 x = mem s x"
      using x by (simp add: s0_def mmap_anon_def memset_apart)
    with hB' mB' sub show ?thesis
      by (auto simp add: st Let_def bm)
  qed
  show "heap_ok s' (insert mm B) (case cs of [] \<Rightarrow> [mm] | h # _ \<Rightarrow> [h, mm])"
    unfolding heap_ok_def
  proof (intro conjI ballI impI)
    show "NULL \<notin> insert mm B"
      using n0 mm0 by simp
  next
    fix c assume c: "c \<in> insert mm B"
    then have c': "c \<in> B'" by (simp add: B'_def)
    from c em eo eB mp show "block_end s' c < 2 ^ 64"
      by auto
    have cl: "get_next s c \<in> insert NULL B \<and> get_prev s c \<in> insert NULL B
        \<and> get_next s c \<noteq> c \<and> get_prev s c \<noteq> c" if "c \<in> B"
      using ok that by (simp add: heap_ok_def)
    from c cl show "get_next s' c \<in> insert NULL (insert mm B)"
      using all [OF c'] by auto
    from c cl hB' show "get_prev s' c \<in> insert NULL (insert mm B)"
      using all [OF c'] by auto
    from c cl mm0 hm show "get_next s' c \<noteq> c"
      using all [OF c'] by auto
    from c cl mm0 hm show "get_prev s' c \<noteq> c"
      using all [OF c'] by auto
  next
    fix b c assume b: "b \<in> insert mm B" and c: "c \<in> insert mm B" and ne: "b \<noteq> c"
    have d: "block_end s x \<le> unat y \<or> block_end s y \<le> unat x" if "x \<in> B" "y \<in> B" "x \<noteq> y" for x y
      using ok that by (simp add: heap_ok_def)
    from b c ne show "block_end s' b \<le> unat c \<or> block_end s' c \<le> unat b"
      using dj em eo d by (cases "b = mm"; cases "c = mm") auto
  next
    show "set (case cs of [] \<Rightarrow> [mm] | h # _ \<Rightarrow> [h, mm]) \<subseteq> insert mm B"
      using sb by (cases cs) auto
  next
    show "distinct (case cs of [] \<Rightarrow> [mm] | h # _ \<Rightarrow> [h, mm])"
      using sb mnB by (cases cs) auto
  next
    from hc show "block_path s' (free_list s') (case cs of [] \<Rightarrow> [mm] | h # _ \<Rightarrow> [h, mm])"
    proof
      assume "cs = [] \<and> h = NULL"
      with all [OF mB'] mm0 show ?thesis
        by (simp add: fl)
    next
      assume "\<exists>t. cs = h # t \<and> h \<in> B"
      then obtain t where t: "cs = h # t" "h \<in> B" by blast
      with n0 have "h \<noteq> NULL" by auto
      with all [OF mB'] all [OF sub [OF t(2)]] mm0 hm t show ?thesis
        by (simp add: fl)
    qed
  qed
qed

subsection \<open>Allocation\<close>

text \<open>
  An allocation on a heap that satisfies the invariant succeeds, keeps the invariant, and
  returns the payload of a block \<open>X\<close> of the list that is in use and large enough. It
  leaves the other blocks' sizes and flags and all bytes outside headers and outside a new
  mapping as they are, and a region that was fresh before is fresh afterwards.
\<close>

lemma malloc_ok:
  assumes ok: "heap_ok s B cs" and n: "n \<noteq> 0" "unat n < 2 ^ 62" and k: "k \<le> 48" "pg = 2 ^ k"
    and fr: "fresh s B mm (mapping_length pg (align_size n))"
  shows "\<exists>X s' B' cs'.
      allocator_malloc pg mm n s = Some (X + BLOCK_SIZE, s') \<and> X + BLOCK_SIZE \<noteq> NULL
    \<and> heap_ok s' B' cs' \<and> B \<subseteq> B' \<and> X \<in> set cs'
    \<and> get_free s' X = 0 \<and> align_size n \<le> get_size s' X
    \<and> (X \<in> B \<longrightarrow> get_free s X \<noteq> 0)
    \<and> (\<forall>c\<in>B. c \<noteq> X \<longrightarrow> get_size s' c = get_size s c \<and> get_free s' c = get_free s c)
    \<and> (\<forall>x. outside B' x \<and> (unat x < unat X \<or> block_end s' X \<le> unat x) \<longrightarrow> mem s' x = mem s x)
    \<and> (\<forall>a len. fresh s B a len \<and> disjoint_regions mm (mapping_length pg (align_size n)) a len
          \<longrightarrow> fresh s' B' a len)"
proof -
  define a where "a = align_size n"
  define L where "L = mapping_length pg a"
  have "unat n + 16 \<le> 2 ^ 64"
    using n(2) by simp
  from align_size_bounds [OF this]
  have a: "unat n \<le> unat a" "unat a < unat n + 16"
    by (simp_all add: a_def)
  note pg = unat_pow2_le [OF k]
  have a48: "unat (a + BLOCK_SIZE + ALIGNMENT) = unat a + 48"
  proof -
    have "a + BLOCK_SIZE + ALIGNMENT = a + of_nat 48"
      by (simp add: constants)
    moreover have "unat a + 48 < 2 ^ 64"
      using a n(2) by simp
    ultimately show ?thesis
      by (simp only: unat_offset)
  qed
  from find_block_ok [OF ok, of a] obtain r
    where r: "find_block a s = Some r"
      "r = NULL \<or> r \<in> set cs \<and> get_free s r \<noteq> 0 \<and> a \<le> get_size s r"
    by blast
  from ok have sb: "set cs \<subseteq> B" and eB: "\<And>c. c \<in> B \<Longrightarrow> block_end s c < 2 ^ 64"
    by (simp_all add: heap_ok_def)
  note sepB = heap_ok_headers_apart [OF ok]
  note bfB = block_fields [OF sepB]
  show ?thesis
  proof (cases "r = NULL")
    case False
    with r(2) sb have rc: "r \<in> set cs" and rB: "r \<in> B" and rf: "get_free s r \<noteq> 0"
      and ra: "a \<le> get_size s r"
      by auto
    define s1 where "s1 = set_free r 0 s"
    have f1: "get_size s1 c = get_size s c \<and> get_next s1 c = get_next s c
        \<and> get_prev s1 c = get_prev s c \<and> get_free s1 c = (if c = r then 0 else get_free s c)"
      if "c \<in> B" for c
      using that rB by (simp add: s1_def bfB)
    have ok1: "heap_ok s1 B cs"
      by (rule heap_ok_cong [OF ok]) (use f1 in \<open>simp_all add: s1_def field_free_list\<close>)
    have m1: "mem s1 x = mem s x" if "outside B x" for x
      using block_mem [OF that rB] by (simp add: s1_def)
    have e1: "block_end s1 c = block_end s c" if "c \<in> B" for c
      using f1 [OF that] by (simp add: block_end_def)
    have res: "allocator_malloc pg mm n s =
      Some (r + BLOCK_SIZE, if a + BLOCK_SIZE + ALIGNMENT < get_size s1 r
                            then split_block r a s1 else s1)"
      using n(1) r(1) False by (simp add: allocator_malloc_def a_def [symmetric] Let_def s1_def)
    have p0: "r + BLOCK_SIZE \<noteq> NULL"
    proof -
      have "unat r + 32 < 2 ^ 64"
        using eB [OF rB] block_end_ge [of r s] by linarith
      then have "unat (r + of_nat 32) = unat r + 32"
        by (rule unat_offset)
      then show ?thesis
        by (auto simp add: BLOCK_SIZE_def)
    qed
    show ?thesis
    proof (cases "a + BLOCK_SIZE + ALIGNMENT < get_size s1 r")
      case True
      define R where "R = r + BLOCK_SIZE + a"
      define s' where "s' = split_block r a s1"
      from True have big: "unat a + 48 < unat (get_size s1 r)"
        by (simp add: word_less_nat_alt a48)
      note sp = split_block_ok [OF ok1 rB big R_def s'_def]
      have res': "allocator_malloc pg mm n s = Some (r + BLOCK_SIZE, s')"
        using res True by (simp add: s'_def)
      have "r \<in> set (insert_after r R cs)"
        using rc set_insert_after_old [of cs r R] by auto
      moreover have "get_free s' r = 0" "a \<le> get_size s' r"
        using sp(3) sp(4) [OF rB] f1 [OF rB] by simp_all
      moreover have "get_size s' c = get_size s c \<and> get_free s' c = get_free s c"
        if "c \<in> B" "c \<noteq> r" for c
        using sp(4) [OF that(1)] f1 [OF that(1)] that(2) by simp
      moreover have "mem s' x = mem s x" if "outside (insert R B) x" for x
      proof -
        from that have "outside B x"
          by (rule outside_mono) auto
        with sp(6) [OF that] m1 show ?thesis by simp
      qed
      moreover have "fresh s' (insert R B) y len" if y: "fresh s B y len" for y len
        unfolding fresh_def
      proof (intro conjI ballI)
        from y show "mapped y len" by (simp add: fresh_def)
        fix c assume c: "c \<in> insert R B"
        from y rB have yr: "unat y + unat len \<le> unat r \<or> block_end s r \<le> unat y"
          by (simp add: fresh_def)
        have er: "block_end s' r = unat R" "block_end s' R = block_end s r"
          using sp(5) e1 [OF rB] by simp_all
        have rR: "unat r \<le> unat R" "unat R \<le> block_end s r"
          using er block_end_ge [of r s'] block_end_ge [of R s'] by linarith+
        show "unat y + unat len \<le> unat c \<or> block_end s' c \<le> unat y"
        proof (cases "c = R \<or> c = r")
          case True
          with yr er rR show ?thesis by auto
        next
          case False
          with c have cB: "c \<in> B" by simp
          have "block_end s' c = block_end s c"
            using sp(4) [OF cB] f1 [OF cB] False by (simp add: block_end_def)
          with y cB show ?thesis by (simp add: fresh_def)
        qed
      qed
      ultimately show ?thesis
        using res' p0 sp(1) rf by (intro exI [of _ r] exI [of _ s'] exI [of _ "insert R B"]
            exI [of _ "insert_after r R cs"]) (auto simp add: a_def)
    next
      case False
      with res have res': "allocator_malloc pg mm n s = Some (r + BLOCK_SIZE, s1)"
        by simp
      have "fresh s1 B y len" if "fresh s B y len" for y len
        using that e1 by (simp add: fresh_def)
      with res' p0 ok1 rc rf ra f1 f1 [OF rB] m1 show ?thesis
        by (intro exI [of _ r] exI [of _ s1] exI [of _ B] exI [of _ cs]) (auto simp add: a_def)
    qed
  next
    case True
    define s' where "s' = snd (extend_heap pg mm (free_list s) a s)"
    have fit: "unat a + 32 + unat pg \<le> 2 ^ 64"
      using a n(2) pg(1) by simp
    from mapping_length_ge [OF pg(2) k(2) fit]
    have Lge: "unat a + 32 \<le> unat L"
      by (simp add: L_def)
    then have L32: "32 \<le> unat L"
      by simp
    from fr have fr': "fresh s B mm L"
      by (simp add: L_def a_def)
    note ex = extend_heap_ok [OF ok fr' L_def L32 s'_def]
    from ex(2) have "fst (extend_heap pg mm (free_list s) a s) = mm"
      by (simp add: extend_heap_state)
    then have eh: "extend_heap pg mm (free_list s) a s = (mm, s')"
      by (simp add: s'_def prod_eq_iff)
    have res: "allocator_malloc pg mm n s = Some (mm + BLOCK_SIZE, s')"
      using n(1) r(1) True ex(2)
      by (simp add: allocator_malloc_def a_def [symmetric] Let_def eh)
    have p0: "mm + BLOCK_SIZE \<noteq> NULL"
    proof -
      from fr' have "unat mm + unat L < 2 ^ 64"
        by (simp add: fresh_def mapped_def)
      with L32 have "unat mm + 32 < 2 ^ 64"
        by linarith
      then have "unat (mm + of_nat 32) = unat mm + 32"
        by (rule unat_offset)
      then show ?thesis
        by (auto simp add: BLOCK_SIZE_def)
    qed
    have "mm \<in> set (case cs of [] \<Rightarrow> [mm] | h # _ \<Rightarrow> [h, mm])"
      by (cases cs) simp_all
    moreover have "a \<le> get_size s' mm"
    proof -
      have "unat (L - 32) = unat L - 32"
        using L32 by (simp add: unat_sub word_le_nat_alt)
      with Lge ex(3) show ?thesis
        by (simp add: word_le_nat_alt BLOCK_SIZE_def)
    qed
    moreover have "mem s' x = mem s x"
      if "outside (insert mm B) x" "unat x < unat mm \<or> block_end s' mm \<le> unat x" for x
    proof -
      have "unat x + 1 \<le> unat mm \<or> unat mm + unat L \<le> unat x"
        using that(2) ex(5) by auto
      moreover have "unat mm + unat L \<le> 2 ^ 64"
        using fr' by (simp add: fresh_def mapped_def)
      moreover have "unat x + 1 \<le> 2 ^ 64"
        using unsigned_less [of x, where ?'a = nat] by simp
      ultimately have "apart x 1 mm (unat L)"
        using L32 by (intro apartI) simp_all
      with ex(6) [OF that(1)] show ?thesis by simp
    qed
    moreover have "fresh s' (insert mm B) y len"
      if y: "fresh s B y len" "disjoint_regions mm L y len" for y len
      unfolding fresh_def
    proof (intro conjI ballI)
      from y show "mapped y len" by (simp add: fresh_def)
      fix c assume c: "c \<in> insert mm B"
      show "unat y + unat len \<le> unat c \<or> block_end s' c \<le> unat y"
      proof (cases "c = mm")
        case True
        with y(2) ex(5) show ?thesis
          by (auto simp add: disjoint_regions_def)
      next
        case False
        with c have cB: "c \<in> B" by simp
        have "block_end s' c = block_end s c"
          using ex(4) [OF cB] by (simp add: block_end_def)
        with y cB show ?thesis by (simp add: fresh_def)
      qed
    qed
    ultimately show ?thesis
      using res p0 ex(1,2,3) ex(4)
      by (intro exI [of _ mm] exI [of _ s'] exI [of _ "insert mm B"]
            exI [of _ "case cs of [] \<Rightarrow> [mm] | h # _ \<Rightarrow> [h, mm]"])
         (auto simp add: a_def L_def)
  qed
qed

lemma malloc_heap_ok:
  assumes "heap_ok s B cs" and "n \<noteq> 0" and "unat n < 2 ^ 62" and "k \<le> 48" and "pg = 2 ^ k"
    and "fresh s B mm (mapping_length pg (align_size n))"
  shows "\<exists>p s' B' cs'. allocator_malloc pg mm n s = Some (p, s') \<and> p \<noteq> NULL
    \<and> heap_ok s' B' cs' \<and> B \<subseteq> B' \<and> get_block p \<in> set cs' \<and> get_free s' (get_block p) = 0
    \<and> n \<le> get_size s' (get_block p)"
proof -
  from malloc_ok [OF assms] obtain X s' B' cs'
    where r: "allocator_malloc pg mm n s = Some (X + BLOCK_SIZE, s')" "X + BLOCK_SIZE \<noteq> NULL"
      "heap_ok s' B' cs'" "B \<subseteq> B'" "X \<in> set cs'" "get_free s' X = 0"
      "align_size n \<le> get_size s' X"
    by blast
  have "unat n + 16 \<le> 2 ^ 64"
    using assms(3) by simp
  from align_size_bounds(1) [OF this] r(7) have "n \<le> get_size s' X"
    by (simp add: word_le_nat_alt)
  with r show ?thesis
    by (intro exI [of _ "X + BLOCK_SIZE"] exI [of _ s'] exI [of _ B'] exI [of _ cs'])
       (simp add: get_block_def)
qed

subsection \<open>Release and resize\<close>



text \<open>A release that has nothing to merge keeps the invariant.\<close>

lemma free_heap_ok:
  assumes ok: "heap_ok s B cs" and X: "get_block ptr \<in> B"
    and nx: "get_next s (get_block ptr) = NULL \<or> get_free s (get_next s (get_block ptr)) = 0"
    and pv: "get_prev s (get_block ptr) = NULL \<or> get_free s (get_prev s (get_block ptr)) = 0"
  shows "heap_ok (allocator_free ptr s) B cs"
proof -
  define X where "X = get_block ptr"
  define s1 where "s1 = set_free X 1 s"
  note bf = block_fields [OF heap_ok_headers_apart [OF ok]]
  from X have XB: "X \<in> B" by (simp add: X_def)
  from ok XB have l: "get_next s X \<in> insert NULL B" "get_prev s X \<in> insert NULL B"
    "get_next s X \<noteq> X" "get_prev s X \<noteq> X"
    by (simp_all add: heap_ok_def)
  have f1: "get_size s1 c = get_size s c \<and> get_next s1 c = get_next s c
      \<and> get_prev s1 c = get_prev s c \<and> get_free s1 c = (if c = X then 1 else get_free s c)"
    if "c \<in> B" for c
    using that XB by (simp add: s1_def bf)
  have ok1: "heap_ok s1 B cs"
    by (rule heap_ok_cong [OF ok]) (use f1 in \<open>simp_all add: s1_def field_free_list\<close>)
  have "get_next s1 X = NULL \<or> get_free s1 (get_next s1 X) = 0"
    using nx l f1 [OF XB] f1 [of "get_next s X"] by (auto simp add: X_def)
  moreover have "get_prev s1 X = NULL \<or> get_free s1 (get_prev s1 X) = 0"
    using pv l f1 [OF XB] f1 [of "get_prev s X"] by (auto simp add: X_def)
  ultimately have "merge_blocks X s1 = s1"
    by (rule merge_blocks_noop)
  with ok ok1 show ?thesis
    by (simp add: allocator_free_def Let_def X_def s1_def)
qed

text \<open>
  A block that takes up the block joined to it: the two steps of \<^verbatim>\<open>merge_blocks\<close> both
  have this form. The invariant is kept, with the joined block removed.
\<close>

lemma block_path_head: "block_path s p cs \<Longrightarrow> p \<noteq> NULL \<Longrightarrow> \<exists>t. cs = p # t"
  by (cases cs) auto

lemma block_path_remove:
  assumes "block_path s p cs" and "distinct cs" and "p \<noteq> b" and "a \<noteq> b" and "b \<noteq> NULL"
    and "get_next s a = b" and "get_next t a = get_next s b"
    and "\<And>c. c \<in> set cs \<Longrightarrow> c \<noteq> a \<Longrightarrow> get_next t c = get_next s c"
    and "\<And>c. c \<in> set cs \<Longrightarrow> get_next s c = b \<Longrightarrow> c = a"
  shows "block_path t p (remove1 b cs)"
  using assms(1,2,3,8,9)
proof (induction cs arbitrary: p)
  case Nil
  then show ?case by simp
next
  case (Cons c cs)
  then have p: "p = c" "c \<noteq> NULL" and path: "block_path s (get_next s c) cs"
    and d: "distinct cs" "c \<notin> set cs" and cb: "c \<noteq> b"
    by auto
  show ?case
  proof (cases "get_next s c = b")
    case True
    with Cons.prems(5) [of c] have ca: "c = a" by simp
    from path True assms(5) obtain post where post: "cs = b # post"
      using block_path_head by metis
    with path have pp: "block_path s (get_next s b) post"
      by simp
    from d post ca have "a \<notin> set post" "b \<notin> set post"
      by auto
    then have "block_path t (get_next s b) post = block_path s (get_next s b) post"
      using Cons.prems(4) post by (intro block_path_cong) auto
    with pp p cb ca assms(7) post show ?thesis
      by simp
  next
    case False
    have "c \<noteq> a"
      using False assms(6) by auto
    then have nx: "get_next t c = get_next s c"
      using Cons.prems(4) [of c] by simp
    have "block_path t (get_next s c) (remove1 b cs)"
      by (rule Cons.IH [OF path d(1) False]) (use Cons.prems(4,5) in auto)
    with p cb nx show ?thesis
      by simp
  qed
qed

lemma absorb_ok:
  assumes ok: "heap_ok s B cs" and a: "a \<in> B" and b: "b \<in> B" and j: "joined s B a b"
    and t: "t = (let s1 = set_size a (get_size s a + (BLOCK_SIZE + get_size s b)) s;
                     s2 = set_next a (get_next s b) s1
                 in if get_next s b \<noteq> NULL then set_prev (get_next s b) a s2 else s2)"
  shows "heap_ok t (B - {b}) (remove1 b cs)"
    and "\<And>c. c \<in> B \<Longrightarrow> get_free t c = get_free s c
          \<and> get_size t c = (if c = a then get_size s a + (BLOCK_SIZE + get_size s b) else get_size s c)
          \<and> get_next t c = (if c = a then get_next s b else get_next s c)
          \<and> get_prev t c = (if get_next s b \<noteq> NULL \<and> c = get_next s b then a else get_prev s c)"
    and "free_list t = free_list s"
proof -
  define nn where "nn = get_next s b"
  from ok have n0: "NULL \<notin> B" and sb: "set cs \<subseteq> B" and d: "distinct cs"
    and path: "block_path s (free_list s) cs"
    by (simp_all add: heap_ok_def)
  have cl: "block_end s c < 2 ^ 64 \<and> get_next s c \<in> insert NULL B \<and> get_prev s c \<in> insert NULL B
      \<and> get_next s c \<noteq> c \<and> get_prev s c \<noteq> c" if "c \<in> B" for c
    using ok that by (simp add: heap_ok_def)
  have dj: "block_end s x \<le> unat y \<or> block_end s y \<le> unat x" if "x \<in> B" "y \<in> B" "x \<noteq> y" for x y
    using ok that by (simp add: heap_ok_def)
  from j have nab: "get_next s a = b" and adj: "unat b = block_end s a" and hd: "free_list s \<noteq> b"
    and nna: "nn \<noteq> a" and un: "\<And>c. c \<in> B \<Longrightarrow> get_next s c = b \<Longrightarrow> c = a"
    and up: "\<And>c. c \<in> B \<Longrightarrow> get_prev s c = b \<Longrightarrow> c = nn"
    by (simp_all add: joined_def nn_def)
  have ab: "a \<noteq> b"
    using cl [OF a] nab by auto
  have b0: "b \<noteq> NULL"
    using b n0 by auto
  have nnB: "nn = NULL \<or> nn \<in> B" and nnb: "nn \<noteq> b"
    using cl [OF b] by (auto simp add: nn_def)
  note bf = block_fields [OF heap_ok_headers_apart [OF ok]]
  have all: "get_free t c = get_free s c
      \<and> get_size t c = (if c = a then get_size s a + (BLOCK_SIZE + get_size s b) else get_size s c)
      \<and> get_next t c = (if c = a then nn else get_next s c)
      \<and> get_prev t c = (if nn \<noteq> NULL \<and> c = nn then a else get_prev s c)" if c: "c \<in> B" for c
  proof (cases "nn = NULL")
    case True
    with c a show ?thesis
      by (simp add: t Let_def nn_def [symmetric] bf)
  next
    case False
    with nnB have "nn \<in> B" by simp
    with c a False show ?thesis
      by (simp add: t Let_def nn_def [symmetric] bf)
  qed
  show "get_free t c = get_free s c
          \<and> get_size t c = (if c = a then get_size s a + (BLOCK_SIZE + get_size s b) else get_size s c)
          \<and> get_next t c = (if c = a then get_next s b else get_next s c)
          \<and> get_prev t c = (if get_next s b \<noteq> NULL \<and> c = get_next s b then a else get_prev s c)"
    if "c \<in> B" for c
    using all [OF that] by (simp add: nn_def)
  show fl: "free_list t = free_list s"
    by (simp add: t Let_def field_free_list)
  have eb: "block_end s b < 2 ^ 64"
    using cl [OF b] by simp
  have usz: "unat (get_size s a + (BLOCK_SIZE + get_size s b)) = unat (get_size s a) + 32 + unat (get_size s b)"
  proof -
    have "unat (get_size s a) + (32 + unat (get_size s b)) < 2 ^ 64"
      using eb adj by (simp add: block_end_def)
    then have "unat (get_size s a + of_nat (32 + unat (get_size s b))) =
        unat (get_size s a) + (32 + unat (get_size s b))"
      by (rule unat_offset)
    then show ?thesis
      by (simp add: BLOCK_SIZE_def)
  qed
  have ea: "block_end t a = block_end s b"
    using all [OF a] usz adj by (simp add: block_end_def)
  have eo: "block_end t c = block_end s c" if "c \<in> B" "c \<noteq> a" for c
    using all [OF that(1)] that(2) by (simp add: block_end_def)
  show "heap_ok t (B - {b}) (remove1 b cs)"
    unfolding heap_ok_def
  proof (intro conjI ballI impI)
    show "NULL \<notin> B - {b}"
      using n0 by simp
  next
    fix c assume c: "c \<in> B - {b}"
    then have cB: "c \<in> B" and cb: "c \<noteq> b" by simp_all
    show "block_end t c < 2 ^ 64"
      using ea eo [OF cB] eb cl [OF cB] by (cases "c = a") simp_all
    show "get_next t c \<in> insert NULL (B - {b})"
      using all [OF cB] cl [OF cB] nnB nnb un [OF cB] cb by auto
    show "get_prev t c \<in> insert NULL (B - {b})"
      using all [OF cB] cl [OF cB] a ab up [OF cB] nnb n0 cB by auto
    show "get_next t c \<noteq> c"
      using all [OF cB] cl [OF cB] nna by auto
    show "get_prev t c \<noteq> c"
      using all [OF cB] cl [OF cB] nna by auto
  next
    fix x y assume x: "x \<in> B - {b}" and y: "y \<in> B - {b}" and ne: "x \<noteq> y"
    have lo: "unat c + 32 \<le> block_end s c" for c
      by (rule block_end_ge)
    have other: "block_end t a \<le> unat c \<or> block_end t c \<le> unat a"
      if "c \<in> B" "c \<noteq> a" "c \<noteq> b" for c
      using dj [OF a that(1)] dj [OF b that(1)] that ea eo [OF that(1,2)] adj lo [of c]
      by auto
    from x y ne show "block_end t x \<le> unat y \<or> block_end t y \<le> unat x"
    proof (cases "x = a"; cases "y = a")
    qed (use other dj eo in auto)
  next
    show "set (remove1 b cs) \<subseteq> B - {b}"
      using sb d by auto
  next
    show "distinct (remove1 b cs)"
      using d by simp
  next
    show "block_path t (free_list t) (remove1 b cs)"
      unfolding fl
    proof (rule block_path_remove [OF path d hd ab b0 nab])
      show "get_next t a = get_next s b"
        using all [OF a] by (simp add: nn_def)
      show "get_next t c = get_next s c" if "c \<in> set cs" "c \<noteq> a" for c
        using all [of c] that sb by auto
      show "c = a" if "c \<in> set cs" "get_next s c = b" for c
        using un [of c] that sb by auto
    qed
  qed
qed

text \<open>
  A release keeps the invariant when every block that it merges away is joined to the
  block that takes it up. (A merge of list neighbours that are not neighbours in memory
  makes the merged block overlap whatever lies between them.)
\<close>

lemma free_merging_heap_ok:
  assumes ok: "heap_ok s B cs" and X: "get_block ptr \<in> B"
    and fwd: "get_next s (get_block ptr) \<noteq> NULL \<and> get_free s (get_next s (get_block ptr)) \<noteq> 0
      \<longrightarrow> joined s B (get_block ptr) (get_next s (get_block ptr))"
    and bwd: "get_prev s (get_block ptr) \<noteq> NULL \<and> get_free s (get_prev s (get_block ptr)) \<noteq> 0
      \<longrightarrow> joined s B (get_prev s (get_block ptr)) (get_block ptr)
          \<and> (get_next s (get_block ptr) \<noteq> NULL
               \<longrightarrow> get_next s (get_next s (get_block ptr)) \<noteq> get_prev s (get_block ptr))"
  shows "\<exists>B' cs'. heap_ok (allocator_free ptr s) B' cs' \<and> B' \<subseteq> B"
proof (cases "ptr \<noteq> NULL \<and> valid_block s (get_block ptr)")
  case False
  then have "allocator_free ptr s = s"
    by (auto simp add: allocator_free_def Let_def)
  with ok show ?thesis
    by auto
next
  case True
  define X where "X = get_block ptr"
  define nx where "nx = get_next s X"
  define pv where "pv = get_prev s X"
  define nn where "nn = get_next s nx"
  define s0 where "s0 = set_free X 1 s"
  from X have XB: "X \<in> B" by (simp add: X_def)
  note sep = heap_ok_headers_apart [OF ok]
  note bf = block_fields [OF sep]
  from ok have n0: "NULL \<notin> B"
    by (simp add: heap_ok_def)
  have cl: "get_next s c \<in> insert NULL B \<and> get_prev s c \<in> insert NULL B
      \<and> get_next s c \<noteq> c \<and> get_prev s c \<noteq> c" if "c \<in> B" for c
    using ok that by (simp add: heap_ok_def)
  have nxB: "nx = NULL \<or> nx \<in> B" and nxX: "nx \<noteq> X"
    and pvB: "pv = NULL \<or> pv \<in> B" and pvX: "pv \<noteq> X"
    using cl [OF XB] by (auto simp add: nx_def pv_def)
  have f0: "get_size s0 c = get_size s c \<and> get_next s0 c = get_next s c
      \<and> get_prev s0 c = get_prev s c \<and> get_free s0 c = (if c = X then 1 else get_free s c)"
    if "c \<in> B" for c
    using that XB by (simp add: s0_def bf)
  have fl0: "free_list s0 = free_list s"
    by (simp add: s0_def field_free_list)
  have ok0: "heap_ok s0 B cs"
    by (rule heap_ok_cong [OF ok fl0]) (use f0 in simp)
  have e0: "block_end s0 c = block_end s c" if "c \<in> B" for c
    using f0 [OF that] by (simp add: block_end_def)
  have res: "allocator_free ptr s = merge_blocks X s0"
    using True by (simp add: allocator_free_def Let_def X_def s0_def)
  define c1 where "c1 \<longleftrightarrow> nx \<noteq> NULL \<and> get_free s nx \<noteq> 0"
  define t1 where "t1 =
    (if c1 then
       let s1 = set_size X (get_size s0 X + (BLOCK_SIZE + get_size s0 nx)) s0;
           s2 = set_next X (get_next s0 nx) s1
       in if get_next s0 nx \<noteq> NULL then set_prev (get_next s0 nx) X s2 else s2
     else s0)"
  define B1 where "B1 = (if c1 then B - {nx} else B)"
  define cs1 where "cs1 = (if c1 then remove1 nx cs else cs)"
  have nx0: "get_next s0 X = nx"
    using f0 [OF XB] by (simp add: nx_def)
  have fnx: "get_free s0 nx = get_free s nx" if "nx \<noteq> NULL"
    using that nxB nxX f0 [of nx] by auto
  have phase1: "(if get_next s0 X \<noteq> NULL \<and> get_free s0 (get_next s0 X) \<noteq> 0 then
         let s = set_size X (get_size s0 X + (BLOCK_SIZE + get_size s0 (get_next s0 X))) s0;
             s = set_next X (get_next s (get_next s X)) s
         in if get_next s X \<noteq> NULL then set_prev (get_next s X) X s else s
       else s0) = t1"
  proof (cases c1)
    case False
    with fnx show ?thesis
      by (auto simp add: t1_def c1_def nx0)
  next
    case c: True
    then have n: "nx \<noteq> NULL" "nx \<in> B" "get_free s0 nx \<noteq> 0"
      using nxB fnx by (auto simp add: c1_def)
    with c XB show ?thesis
      by (simp add: t1_def nx0 Let_def bf)
  qed
  have j1: "joined s0 B X nx" if c1
  proof -
    from that fwd have j: "joined s B X nx"
      by (simp add: c1_def nx_def X_def)
    from that nxB have n: "nx \<in> B" by (auto simp add: c1_def)
    from j f0 [OF XB] f0 [OF n] f0 e0 [OF XB] fl0 show ?thesis
      by (simp add: joined_def)
  qed
  have t1_eq: "t1 = (let s1 = set_size X (get_size s0 X + (BLOCK_SIZE + get_size s0 nx)) s0;
                     s2 = set_next X (get_next s0 nx) s1
                 in if get_next s0 nx \<noteq> NULL then set_prev (get_next s0 nx) X s2 else s2)" if c1
    using that by (simp add: t1_def)
  have ok1: "heap_ok t1 B1 cs1"
  proof (cases c1)
    case False
    with ok0 show ?thesis by (simp add: t1_def B1_def cs1_def)
  next
    case c: True
    with nxB have n: "nx \<in> B" by (auto simp add: c1_def)
    from absorb_ok(1) [OF ok0 XB n j1 [OF c] t1_eq [OF c]] c show ?thesis
      by (simp add: B1_def cs1_def)
  qed
  have f1: "get_free t1 c = get_free s0 c
      \<and> get_size t1 c = (if c1 \<and> c = X then get_size s0 X + (BLOCK_SIZE + get_size s0 nx)
                          else get_size s0 c)
      \<and> get_next t1 c = (if c1 \<and> c = X then nn else get_next s0 c)
      \<and> get_prev t1 c = (if c1 \<and> nn \<noteq> NULL \<and> c = nn then X else get_prev s0 c)"
    if cB: "c \<in> B" for c
  proof (cases c1)
    case False
    then show ?thesis by (simp add: t1_def)
  next
    case c: True
    with nxB have n: "nx \<in> B" by (auto simp add: c1_def)
    from absorb_ok(2) [OF ok0 XB n j1 [OF c] t1_eq [OF c] cB] c f0 [OF n] show ?thesis
      by (simp add: nn_def)
  qed
  have fl1: "free_list t1 = free_list s"
  proof (cases c1)
    case False
    then show ?thesis by (simp add: t1_def fl0)
  next
    case c: True
    with nxB have n: "nx \<in> B" by (auto simp add: c1_def)
    from absorb_ok(3) [OF ok0 XB n j1 [OF c] t1_eq [OF c]] fl0 show ?thesis
      by simp
  qed
  have nnX: "nn \<noteq> X" if c1
    using j1 [OF that] f0 [of nx] nxB that by (auto simp add: joined_def nn_def c1_def)
  have XB1: "X \<in> B1"
    using XB nxX by (simp add: B1_def)
  have pv1: "get_prev t1 X = pv"
    using f1 [OF XB] f0 [OF XB] nnX by (auto simp add: pv_def)
  have fpv: "get_free t1 pv = get_free s pv" if "pv \<noteq> NULL"
    using that pvB pvX f1 [of pv] f0 [of pv] by auto
  define c2 where "c2 \<longleftrightarrow> pv \<noteq> NULL \<and> get_free s pv \<noteq> 0"
  define t2 where "t2 =
    (if c2 then
       let s1 = set_size pv (get_size t1 pv + (BLOCK_SIZE + get_size t1 X)) t1;
           s2 = set_next pv (get_next t1 X) s1
       in if get_next t1 X \<noteq> NULL then set_prev (get_next t1 X) pv s2 else s2
     else t1)"
  have m: "merge_blocks X s0 = t2"
  proof -
    have "merge_blocks X s0 =
      (if get_prev t1 X \<noteq> NULL \<and> get_free t1 (get_prev t1 X) \<noteq> 0 then
         let s = set_size (get_prev t1 X)
                   (get_size t1 (get_prev t1 X) + (BLOCK_SIZE + get_size t1 X)) t1;
             s = set_next (get_prev s X) (get_next s X) s
         in if get_next s X \<noteq> NULL then set_prev (get_next s X) (get_prev s X) s else s
       else t1)"
      unfolding phase1 [symmetric] by (simp add: merge_blocks_def Let_def)
    also have "\<dots> = t2"
    proof (cases c2)
      case False
      with fpv show ?thesis
        by (auto simp add: t2_def c2_def pv1)
    next
      case c: True
      then have p: "pv \<noteq> NULL" "pv \<in> B" "get_free t1 pv \<noteq> 0"
        using pvB fpv by (auto simp add: c2_def)
      with c XB pvX pv1 show ?thesis
        by (simp add: t2_def Let_def bf)
    qed
    finally show ?thesis .
  qed
  show ?thesis
  proof (cases c2)
    case False
    with ok1 have "heap_ok (allocator_free ptr s) B1 cs1"
      by (simp add: res m t2_def)
    moreover have "B1 \<subseteq> B"
      by (auto simp add: B1_def)
    ultimately show ?thesis
      by blast
  next
    case c: True
    then have p: "pv \<noteq> NULL" "pv \<in> B"
      using pvB by (auto simp add: c2_def)
    from c bwd have j: "joined s B pv X"
      and far: "nx \<noteq> NULL \<longrightarrow> nn \<noteq> pv"
      by (simp_all add: c2_def pv_def nx_def nn_def X_def)
    from j have npv: "get_next s pv = X" and adj: "unat X = block_end s pv"
      and hd: "free_list s \<noteq> X" and nxp: "nx \<noteq> pv"
      and un: "\<And>c. c \<in> B \<Longrightarrow> get_next s c = X \<Longrightarrow> c = pv"
      and up: "\<And>c. c \<in> B \<Longrightarrow> get_prev s c = X \<Longrightarrow> c = nx"
      by (simp_all add: joined_def nx_def)
    have pvnx: "pv \<noteq> nx"
      using nxp by auto
    have pB1: "pv \<in> B1"
      using p pvnx by (simp add: B1_def)
    have nnp: "nn \<noteq> pv" if c1
      using far that by (simp add: c1_def)
    have j2: "joined t1 B1 pv X"
      unfolding joined_def
    proof (intro conjI ballI impI)
      show "get_next t1 pv = X"
        using f1 [OF p(2)] f0 [OF p(2)] pvX npv by simp
      show "unat X = block_end t1 pv"
        using f1 [OF p(2)] f0 [OF p(2)] pvX adj by (simp add: block_end_def)
      show "free_list t1 \<noteq> X"
        using fl1 hd by simp
      show "get_next t1 X \<noteq> pv"
        using f1 [OF XB] f0 [OF XB] nnp nxp by (auto simp add: nx_def)
    next
      fix c assume c': "c \<in> B1" and g: "get_next t1 c = X"
      then have cB: "c \<in> B" by (auto simp add: B1_def split: if_splits)
      from g f1 [OF cB] f0 [OF cB] nnX have "get_next s c = X"
        by (auto split: if_splits)
      with un [OF cB] show "c = pv" by simp
    next
      fix c assume c': "c \<in> B1" and g: "get_prev t1 c = X"
      then have cB: "c \<in> B" by (auto simp add: B1_def split: if_splits)
      show "c = get_next t1 X"
      proof (cases "c1 \<and> nn \<noteq> NULL \<and> c = nn")
        case True
        with f1 [OF XB] show ?thesis by simp
      next
        case False
        with g f1 [OF cB] f0 [OF cB] have "get_prev s c = X"
          by (auto split: if_splits)
        with up [OF cB] have cn: "c = nx" by simp
        with c' have "\<not> c1"
          by (auto simp add: B1_def split: if_splits)
        with f1 [OF XB] f0 [OF XB] cn show ?thesis
          by (simp add: nx_def)
      qed
    qed
    have t2_eq: "t2 = (let s1 = set_size pv (get_size t1 pv + (BLOCK_SIZE + get_size t1 X)) t1;
                     s2 = set_next pv (get_next t1 X) s1
                 in if get_next t1 X \<noteq> NULL then set_prev (get_next t1 X) pv s2 else s2)"
      using c by (simp add: t2_def)
    from absorb_ok(1) [OF ok1 pB1 XB1 j2 t2_eq]
    have "heap_ok (allocator_free ptr s) (B1 - {X}) (remove1 X cs1)"
      by (simp add: res m)
    moreover have "B1 - {X} \<subseteq> B"
      by (auto simp add: B1_def)
    ultimately show ?thesis
      by blast
  qed
qed

text \<open>A release that merges: the remainder of a split is joined to the block it was cut from.\<close>

lemma release_joined_example:
  "(case allocator_malloc 4096 0x10000 16 (initial_state (\<lambda>_. 0)) of
      None \<Rightarrow> False
    | Some (p, t1) \<Rightarrow>
        (case allocator_realloc 4096 MAP_FAILED p 2000 t1 of
           None \<Rightarrow> False
         | Some (q, t2) \<Rightarrow>
             q = p \<and> heap_ok t2 {0x10000, 0x107F0} [0x10000, 0x107F0]
             \<and> get_free t2 0x107F0 = 1 \<and> joined t2 {0x10000, 0x107F0} (get_block p) 0x107F0
             \<and> heap_ok (allocator_free p t2) {0x10000} [0x10000]
             \<and> get_size (allocator_free p t2) 0x10000 = 4064))"
proof -
  define t1 where "t1 = snd (extend_heap 4096 0x10000 NULL 16 (initial_state (\<lambda>_. 0)))"
  define t2 where "t2 = split_block 0x10000 2000 t1"
  define t3 where "t3 = allocator_free 0x10020 t2"
  have m1: "allocator_malloc 4096 0x10000 16 (initial_state (\<lambda>_. 0)) = Some (0x10020, t1)"
    by (simp add: t1_def malloc_16_fresh)
  have g1: "free_list t1 = 0x10000"
    "load64 (mem t1) 0x10000 = 4064" "load32 (mem t1) 0x10008 = 0"
    "load64 (mem t1) 0x10010 = 0" "load64 (mem t1) 0x10018 = 0"
    by (simp_all add: t1_def run)
  have m2: "allocator_realloc 4096 MAP_FAILED 0x10020 2000 t1 = Some (0x10020, t2)"
    using g1 by (simp add: t2_def run)
  have g2: "free_list t2 = 0x10000"
    "load64 (mem t2) 0x10000 = 2000" "load32 (mem t2) 0x10008 = 0"
    "load64 (mem t2) 0x10010 = 0x107F0" "load64 (mem t2) 0x10018 = 0"
    "load64 (mem t2) 0x107F0 = 2032" "load32 (mem t2) 0x107F8 = 1"
    "load64 (mem t2) 0x10800 = 0" "load64 (mem t2) 0x10808 = 0x10000"
    using g1 by (simp_all add: t2_def run)
  have g3: "free_list t3 = 0x10000"
    "load64 (mem t3) 0x10000 = 4064" "load32 (mem t3) 0x10008 = 1"
    "load64 (mem t3) 0x10010 = 0" "load64 (mem t3) 0x10018 = 0"
    using g2 by (simp_all add: t3_def run)
  have "heap_ok t2 {0x10000, 0x107F0} [0x10000, 0x107F0]"
    "get_free t2 0x107F0 = 1" "joined t2 {0x10000, 0x107F0} (get_block 0x10020) 0x107F0"
    using g2 by (simp_all add: heap_ok_def joined_def block_end_def header_fields get_block_def
        BLOCK_SIZE_def)
  moreover have "heap_ok t3 {0x10000} [0x10000]" "get_size t3 0x10000 = 4064"
    using g3 by (simp_all add: heap_ok_def block_end_def header_fields)
  ultimately show ?thesis
    by (simp add: m1 m2 t3_def [symmetric])
qed

text \<open>A resize in place, a zeroed allocation and the shutdown keep the invariant.\<close>

lemma realloc_in_place_heap_ok:
  assumes ok: "heap_ok s B cs" and X: "get_block ptr \<in> B" and p: "ptr \<noteq> NULL"
    and m: "m \<noteq> 0" "unat m < 2 ^ 62" and fit: "align_size m \<le> get_size s (get_block ptr)"
  shows "\<exists>q s' B' cs'. allocator_realloc pg mm ptr m s = Some (q, s') \<and> heap_ok s' B' cs'
    \<and> B \<subseteq> B'"
proof -
  define X where "X = get_block ptr"
  define a where "a = align_size m"
  from X have XB: "X \<in> B" by (simp add: X_def)
  have "unat m + 16 \<le> 2 ^ 64"
    using m(2) by simp
  from align_size_bounds(2) [OF this] m(2) have a62: "unat a + 48 < 2 ^ 64"
    by (simp add: a_def)
  have "a + BLOCK_SIZE + ALIGNMENT = a + of_nat 48"
    by (simp add: constants)
  with a62 have a48: "unat (a + BLOCK_SIZE + ALIGNMENT) = unat a + 48"
    by (simp only: unat_offset)
  show ?thesis
  proof (cases "valid_block s X \<and> a + BLOCK_SIZE + ALIGNMENT < get_size s X")
    case True
    then have big: "unat a + 48 < unat (get_size s X)"
      by (simp add: word_less_nat_alt a48)
    from split_block_ok(1) [OF ok XB big refl refl]
    have "heap_ok (split_block X a s) (insert (X + BLOCK_SIZE + a) B)
            (insert_after X (X + BLOCK_SIZE + a) cs)" .
    moreover have "allocator_realloc pg mm ptr m s = Some (ptr, split_block X a s)"
      using True p m(1) fit by (simp add: allocator_realloc_def Let_def X_def a_def)
    ultimately show ?thesis
      by blast
  next
    case False
    then have "allocator_realloc pg mm ptr m s = Some (NULL, s)
        \<or> allocator_realloc pg mm ptr m s = Some (ptr, s)"
      using p m(1) fit by (auto simp add: allocator_realloc_def Let_def X_def a_def)
    with ok show ?thesis
      by blast
  qed
qed

lemma calloc_heap_ok:
  assumes ok: "heap_ok s B cs" and n: "c * n \<noteq> 0" "unat (c * n) < 2 ^ 62"
    and k: "k \<le> 48" "pg = 2 ^ k"
    and fr: "fresh s B mm (mapping_length pg (align_size (c * n)))"
  shows "\<exists>p s' B' cs'. allocator_calloc pg mm c n s = Some (p, s') \<and> p \<noteq> NULL
    \<and> heap_ok s' B' cs' \<and> B \<subseteq> B'"
proof -
  from malloc_heap_ok [OF ok n k fr] obtain p s1 B' cs'
    where m: "allocator_malloc pg mm (c * n) s = Some (p, s1)" and p: "p \<noteq> NULL"
      and ok1: "heap_ok s1 B' cs'" and sub: "B \<subseteq> B'" and b: "get_block p \<in> set cs'"
      and sz: "c * n \<le> get_size s1 (get_block p)"
    by blast
  from ok1 b have bB: "get_block p \<in> B'"
    by (auto simp add: heap_ok_def)
  have l: "unat (c * n) \<le> unat (get_size s1 (get_block p))"
    using sz by (simp add: word_le_nat_alt)
  have l0: "0 < unat (c * n)"
    using n(1) by (simp add: unat_gt_0)
  have pe: "get_block p + 32 = p"
    by (simp add: get_block_def BLOCK_SIZE_def)
  have wr: "\<forall>x. apart x 1 (get_block p + 32) (unat (c * n))
      \<longrightarrow> memset (mem s1) p 0 (c * n) x = mem s1 x"
    by (simp add: pe memset_apart)
  from payload_write(1) [OF ok1 bB l l0 wr]
  have "heap_ok (s1\<lparr>mem := memset (mem s1) p 0 (c * n)\<rparr>) B' cs'" .
  moreover have "allocator_calloc pg mm c n s = Some (p, s1\<lparr>mem := memset (mem s1) p 0 (c * n)\<rparr>)"
    using m p by (simp add: allocator_calloc_def Let_def)
  ultimately show ?thesis
    using p sub by blast
qed

lemma destroy_from_path:
  assumes "block_path s p cs"
  shows "\<exists>s'. destroy_from p s = Some s' \<and> mem s' = mem s \<and> free_list s' = free_list s"
  using assms
proof (induction cs arbitrary: p s)
  case Nil
  then show ?case by (simp add: destroy_from.simps)
next
  case (Cons c cs)
  then have p: "p = c" "c \<noteq> NULL" and path: "block_path s (get_next s c) cs"
    by simp_all
  define s1 where "s1 = (if get_free s c = 0 then munmap c (get_size s c + BLOCK_SIZE) s else s)"
  have same: "mem s1 = mem s" "free_list s1 = free_list s"
    by (simp_all add: s1_def munmap_def)
  then have "\<And>b. get_next s1 b = get_next s b"
    by (simp add: get_next_def)
  then have "block_path s1 (get_next s c) cs = block_path s (get_next s c) cs"
    by (intro block_path_cong) simp
  with path have "block_path s1 (get_next s c) cs"
    by simp
  from Cons.IH [OF this] obtain s' where r: "destroy_from (get_next s c) s1 = Some s'"
    "mem s' = mem s1" "free_list s' = free_list s1"
    by blast
  have "destroy_from p s = destroy_from (get_next s c) s1"
    using p by (subst destroy_from.simps) (simp add: s1_def)
  with r same show ?case
    by simp
qed

lemma destroy_heap_ok:
  assumes ok: "heap_ok s B cs"
  shows "\<exists>s'. allocator_destroy s = Some s' \<and> heap_ok s' B []"
proof -
  from ok have "block_path s (free_list s) cs"
    by (simp add: heap_ok_def)
  from destroy_from_path [OF this] obtain s1
    where d: "destroy_from (free_list s) s = Some s1" and m: "mem s1 = mem s"
    by blast
  have f: "get_size (s1\<lparr>free_list := NULL\<rparr>) c = get_size s c"
    "get_next (s1\<lparr>free_list := NULL\<rparr>) c = get_next s c"
    "get_prev (s1\<lparr>free_list := NULL\<rparr>) c = get_prev s c" for c
    using m by (simp_all add: header_fields)
  then have e: "block_end (s1\<lparr>free_list := NULL\<rparr>) c = block_end s c" for c
    by (simp add: block_end_def)
  from ok have "heap_ok (s1\<lparr>free_list := NULL\<rparr>) B []"
    by (simp add: heap_ok_def f e)
  with d show ?thesis
    by (simp add: allocator_destroy_def)
qed

section \<open>Growing the heap\<close>

text \<open>
  The claim that the new header records the requested size fails: \<^verbatim>\<open>extend_heap\<close> records
  the length of the whole mapping minus the header. With pages of 4096 bytes a request of 16
  bytes gives a block of size 4064. The second half of the claim fails too: a third
  allocation that maps memory is linked behind the list head \<open>0x10000\<close>, not behind the
  last block \<open>0x20000\<close>, which thereby leaves the list.
\<close>

theorem extend_heap_size_counterexample:
  "fst (extend_heap 4096 0x10000 NULL 16 (initial_state (\<lambda>_. 0))) = 0x10000
   \<and> get_free (snd (extend_heap 4096 0x10000 NULL 16 (initial_state (\<lambda>_. 0)))) 0x10000 = 0
   \<and> get_size (snd (extend_heap 4096 0x10000 NULL 16 (initial_state (\<lambda>_. 0)))) 0x10000 = 4064
   \<and> (case allocator_malloc 4096 0x10000 16 (initial_state (\<lambda>_. 0)) of
        None \<Rightarrow> False
      | Some (p1, s1) \<Rightarrow>
          (case allocator_malloc 4096 0x20000 16 s1 of
             None \<Rightarrow> False
           | Some (p2, s2) \<Rightarrow>
               (case allocator_malloc 4096 0x30000 16 s2 of
                  None \<Rightarrow> False
                | Some (p3, s3) \<Rightarrow>
                    free_list s2 = 0x10000 \<and> get_next s2 0x10000 = 0x20000
                    \<and> get_next s2 0x20000 = NULL
                    \<and> p3 = 0x30020 \<and> free_list s3 = 0x10000
                    \<and> get_next s3 0x10000 = 0x30000 \<and> get_prev s3 0x30000 = 0x10000
                    \<and> get_next s3 0x30000 = NULL \<and> get_next s3 0x20000 = NULL)))"
  by (simp add: run)

text \<open>
  Claim C1, amended. A successful \<^verbatim>\<open>extend_heap(last, size)\<close> (\<^verbatim>\<open>mmap\<close> did not return
  \<^verbatim>\<open>MAP_FAILED\<close>; the new mapping does not overlap the \<^verbatim>\<open>next\<close> field of \<^verbatim>\<open>last\<close>) returns
  the mapped address as the new block. Its header is in use, its size is the length of the
  mapping (header plus request, rounded with the page size) minus the header, which is at
  least the requested size when the page size is a power of two and nothing overflows; its
  \<^verbatim>\<open>next\<close> is null and its \<^verbatim>\<open>prev\<close> is \<^verbatim>\<open>last\<close>. When \<^verbatim>\<open>last\<close> is not null, \<^verbatim>\<open>last->next\<close>
  is the new block and the list head is unchanged; when it is null the new block becomes
  the list head. The mapping is recorded.
\<close>

theorem extend_heap_appends:
  assumes "mm \<noteq> MAP_FAILED"
    and "last_block \<noteq> NULL \<longrightarrow> apart mm 32 (last_block + 16) 8"
    and "s' = snd (extend_heap pg mm last_block n s)"
  shows "fst (extend_heap pg mm last_block n s) = mm
    \<and> get_free s' mm = 0
    \<and> get_size s' mm = mapping_length pg n - BLOCK_SIZE
    \<and> get_next s' mm = NULL
    \<and> get_prev s' mm = last_block
    \<and> (last_block \<noteq> NULL \<longrightarrow> get_next s' last_block = mm \<and> free_list s' = free_list s)
    \<and> (last_block = NULL \<longrightarrow> free_list s' = mm)
    \<and> mmap_log s' = mmap_log s @ [(mm, mapping_length pg n)]
    \<and> ((\<exists>k<64. pg = 2 ^ k) \<and> unat n + 32 + unat pg \<le> 2 ^ 64 \<longrightarrow> n \<le> get_size s' mm)"
  using assms by (rule extend_heap_fields)

theorem extend_heap_appends_witness:
  "0x10000 \<noteq> MAP_FAILED \<and> apart 0x10000 32 (0x20000 + 16) 8
   \<and> fst (extend_heap 4096 0x10000 0x20000 16
         (snd (extend_heap 4096 0x20000 NULL 16 (initial_state (\<lambda>_. 0))))) = 0x10000
   \<and> get_size (snd (extend_heap 4096 0x10000 0x20000 16
         (snd (extend_heap 4096 0x20000 NULL 16 (initial_state (\<lambda>_. 0)))))) 0x10000 = 4064
   \<and> get_next (snd (extend_heap 4096 0x10000 0x20000 16
         (snd (extend_heap 4096 0x20000 NULL 16 (initial_state (\<lambda>_. 0)))))) 0x20000 = 0x10000
   \<and> get_prev (snd (extend_heap 4096 0x10000 0x20000 16
         (snd (extend_heap 4096 0x20000 NULL 16 (initial_state (\<lambda>_. 0)))))) 0x10000 = 0x20000
   \<and> free_list (snd (extend_heap 4096 0x20000 NULL 16 (initial_state (\<lambda>_. 0)))) = 0x20000"
proof -
  let ?s1 = "snd (extend_heap 4096 0x20000 NULL 16 (initial_state (\<lambda>_. 0)))"
  have a: "(0x10000 :: addr) \<noteq> MAP_FAILED" "(0x20000 :: addr) \<noteq> MAP_FAILED"
    by (simp_all add: MAP_FAILED_def)
  have b: "(0x20000 :: addr) \<noteq> NULL \<longrightarrow> apart 0x10000 32 (0x20000 + 16) 8"
    "(NULL :: addr) \<noteq> NULL \<longrightarrow> apart 0x20000 32 (NULL + 16) 8"
    by (simp_all add: apart_def)
  have c: "mapping_length 4096 16 - BLOCK_SIZE = 4064"
    by (simp add: mapping_length_def BLOCK_SIZE_def)
  show ?thesis
    using a b c extend_heap_appends [OF a(1) b(1) refl, of 4096 16 ?s1]
      extend_heap_appends [OF a(2) b(2) refl, of 4096 16 "initial_state (\<lambda>_. 0)"]
    by simp
qed

section \<open>The address order of the list\<close>

text \<open>
  Claim C2 says that the list is in ascending address order and that a block's successor
  starts where the block ends. Two allocations that each map memory break this: the second
  mapping (here at \<open>0x10000\<close>, below the first at \<open>0x20000\<close>) is linked behind the first
  block, whose end is \<open>0x21000\<close>. \<^verbatim>\<open>merge_blocks\<close> relies on the property: after both blocks
  are released the first block claims 8160 bytes although its mapping has 4096, and a request
  for 8000 bytes is served from it without any further mapping.
\<close>

theorem second_mapping_breaks_address_order:
  "(case allocator_malloc 4096 0x20000 16 (initial_state (\<lambda>_. 0)) of
      None \<Rightarrow> False
    | Some (p1, s1) \<Rightarrow>
        (case allocator_malloc 4096 0x10000 16 s1 of
           None \<Rightarrow> False
         | Some (p2, s2) \<Rightarrow>
             p1 = 0x20020 \<and> p2 = 0x10020 \<and> free_list s2 = 0x20000
             \<and> get_size s2 0x20000 = 4064
             \<and> get_next s2 0x20000 = 0x10000
             \<and> get_next s2 0x20000 \<noteq> 0x20000 + BLOCK_SIZE + get_size s2 0x20000
             \<and> \<not> 0x20000 < get_next s2 0x20000
             \<and> (case allocator_malloc 4096 MAP_FAILED 8000
                         (allocator_free p2 (allocator_free p1 s2)) of
                    None \<Rightarrow> False
                  | Some (p3, s3) \<Rightarrow>
                      p3 = 0x20020 \<and> get_size s3 0x20000 = 8000
                      \<and> get_next s3 0x20000 = 0x21F60
                      \<and> mmap_log s3 = [(0x20000, 4096), (0x10000, 4096)])))"
proof -
  define s1 where "s1 = snd (extend_heap 4096 0x20000 NULL 16 (initial_state (\<lambda>_. 0)))"
  define s2 where "s2 = snd (extend_heap 4096 0x10000 0x20000 16 s1)"
  define s3 where "s3 = allocator_free 0x20020 s2"
  define s4 where "s4 = allocator_free 0x10020 s3"
  define s5 where "s5 = split_block 0x20000 8000 (set_free 0x20000 0 s4)"
  have f1: "free_list s1 = 0x20000" "mmap_log s1 = [(0x20000, 4096)]"
    "load64 (mem s1) 0x20000 = 4064" "load32 (mem s1) 0x20008 = 0"
    "load64 (mem s1) 0x20010 = 0" "load64 (mem s1) 0x20018 = 0"
    by (simp_all add: s1_def run)
  have m1: "allocator_malloc 4096 0x20000 16 (initial_state (\<lambda>_. 0)) = Some (0x20020, s1)"
    by (simp add: s1_def run)
  have m2: "allocator_malloc 4096 0x10000 16 s1 = Some (0x10020, s2)"
    using f1 by (simp add: s2_def run)
  have f2: "free_list s2 = 0x20000" "mmap_log s2 = [(0x20000, 4096), (0x10000, 4096)]"
    "load64 (mem s2) 0x20000 = 4064" "load32 (mem s2) 0x20008 = 0"
    "load64 (mem s2) 0x20010 = 0x10000" "load64 (mem s2) 0x20018 = 0"
    "load64 (mem s2) 0x10000 = 4064" "load32 (mem s2) 0x10008 = 0"
    "load64 (mem s2) 0x10010 = 0" "load64 (mem s2) 0x10018 = 0x20000"
    using f1 by (simp_all add: s2_def run)
  have f3: "free_list s3 = 0x20000" "mmap_log s3 = [(0x20000, 4096), (0x10000, 4096)]"
    "load64 (mem s3) 0x20000 = 4064" "load32 (mem s3) 0x20008 = 1"
    "load64 (mem s3) 0x20010 = 0x10000" "load64 (mem s3) 0x20018 = 0"
    "load64 (mem s3) 0x10000 = 4064" "load32 (mem s3) 0x10008 = 0"
    "load64 (mem s3) 0x10010 = 0" "load64 (mem s3) 0x10018 = 0x20000"
    using f2 by (simp_all add: s3_def run)
  have f4: "free_list s4 = 0x20000" "mmap_log s4 = [(0x20000, 4096), (0x10000, 4096)]"
    "load64 (mem s4) 0x20000 = 8160" "load32 (mem s4) 0x20008 = 1"
    "load64 (mem s4) 0x20010 = 0" "load64 (mem s4) 0x20018 = 0"
    using f3 by (simp_all add: s4_def run)
  have m5: "allocator_malloc 4096 MAP_FAILED 8000 s4 = Some (0x20020, s5)"
    using f4 by (simp add: s5_def run)
  have f5: "mmap_log s5 = [(0x20000, 4096), (0x10000, 4096)]"
    "load64 (mem s5) 0x20000 = 8000" "load64 (mem s5) 0x20010 = 0x21F60"
    using f4 by (simp_all add: s5_def run)
  show ?thesis
    using f2 f5
    by (simp add: m1 m2 m5 s3_def [symmetric] s4_def [symmetric] header_fields BLOCK_SIZE_def)
qed

section \<open>Adjacent free blocks\<close>

text \<open>
  Releasing goes through \<^verbatim>\<open>merge_blocks\<close>: with three neighbouring blocks, two in use and
  the last one free, releasing the two in either order leaves one free block of 4064 bytes.
\<close>

lemma release_coalesces_neighbours:
  "(case allocator_malloc 4096 0x10000 16 (initial_state (\<lambda>_. 0)) of
      None \<Rightarrow> False
    | Some (p, s1) \<Rightarrow>
        (case allocator_realloc 4096 MAP_FAILED p 16 s1 of
           None \<Rightarrow> False
         | Some (p', s2) \<Rightarrow>
             (case allocator_malloc 4096 MAP_FAILED 16 s2 of
                None \<Rightarrow> False
              | Some (q, s3) \<Rightarrow>
                  p = 0x10020 \<and> p' = p \<and> q = 0x10050 \<and> free_list s3 = 0x10000
                  \<and> get_free s3 0x10000 = 0 \<and> get_size s3 0x10000 = 16
                  \<and> get_next s3 0x10000 = 0x10030
                  \<and> get_free s3 0x10030 = 0 \<and> get_size s3 0x10030 = 16
                  \<and> get_next s3 0x10030 = 0x10060
                  \<and> get_free s3 0x10060 = 1 \<and> get_size s3 0x10060 = 3968
                  \<and> get_next s3 0x10060 = NULL
                  \<and> get_free (allocator_free q (allocator_free p s3)) 0x10000 = 1
                  \<and> get_size (allocator_free q (allocator_free p s3)) 0x10000 = 4064
                  \<and> get_next (allocator_free q (allocator_free p s3)) 0x10000 = NULL
                  \<and> get_free (allocator_free p (allocator_free q s3)) 0x10000 = 1
                  \<and> get_size (allocator_free p (allocator_free q s3)) 0x10000 = 4064
                  \<and> get_next (allocator_free p (allocator_free q s3)) 0x10000 = NULL)))"
proof -
  define s1 where "s1 = snd (extend_heap 4096 0x10000 NULL 16 (initial_state (\<lambda>_. 0)))"
  define s2 where "s2 = split_block 0x10000 16 s1"
  define s3 where "s3 = split_block 0x10030 16 (set_free 0x10030 0 s2)"
  define t1 where "t1 = allocator_free 0x10020 s3"
  define t2 where "t2 = allocator_free 0x10050 t1"
  define u1 where "u1 = allocator_free 0x10050 s3"
  define u2 where "u2 = allocator_free 0x10020 u1"
  have f1: "free_list s1 = 0x10000"
    "load64 (mem s1) 0x10000 = 4064" "load32 (mem s1) 0x10008 = 0"
    "load64 (mem s1) 0x10010 = 0" "load64 (mem s1) 0x10018 = 0"
    by (simp_all add: s1_def run)
  have m1: "allocator_malloc 4096 0x10000 16 (initial_state (\<lambda>_. 0)) = Some (0x10020, s1)"
    by (simp add: s1_def run)
  have m2: "allocator_realloc 4096 MAP_FAILED 0x10020 16 s1 = Some (0x10020, s2)"
    using f1 by (simp add: s2_def run)
  have f2: "free_list s2 = 0x10000"
    "load64 (mem s2) 0x10000 = 16" "load32 (mem s2) 0x10008 = 0"
    "load64 (mem s2) 0x10010 = 0x10030" "load64 (mem s2) 0x10018 = 0"
    "load64 (mem s2) 0x10030 = 4016" "load32 (mem s2) 0x10038 = 1"
    "load64 (mem s2) 0x10040 = 0" "load64 (mem s2) 0x10048 = 0x10000"
    using f1 by (simp_all add: s2_def run)
  have m3: "allocator_malloc 4096 MAP_FAILED 16 s2 = Some (0x10050, s3)"
    using f2 by (simp add: s3_def run)
  have f3: "free_list s3 = 0x10000"
    "load64 (mem s3) 0x10000 = 16" "load32 (mem s3) 0x10008 = 0"
    "load64 (mem s3) 0x10010 = 0x10030" "load64 (mem s3) 0x10018 = 0"
    "load64 (mem s3) 0x10030 = 16" "load32 (mem s3) 0x10038 = 0"
    "load64 (mem s3) 0x10040 = 0x10060" "load64 (mem s3) 0x10048 = 0x10000"
    "load64 (mem s3) 0x10060 = 3968" "load32 (mem s3) 0x10068 = 1"
    "load64 (mem s3) 0x10070 = 0" "load64 (mem s3) 0x10078 = 0x10030"
    using f2 by (simp_all add: s3_def run)
  have g1: "load64 (mem t1) 0x10000 = 16" "load32 (mem t1) 0x10008 = 1"
    "load64 (mem t1) 0x10010 = 0x10030" "load64 (mem t1) 0x10018 = 0"
    "load64 (mem t1) 0x10030 = 16" "load32 (mem t1) 0x10038 = 0"
    "load64 (mem t1) 0x10040 = 0x10060" "load64 (mem t1) 0x10048 = 0x10000"
    "load64 (mem t1) 0x10060 = 3968" "load32 (mem t1) 0x10068 = 1"
    "load64 (mem t1) 0x10070 = 0" "load64 (mem t1) 0x10078 = 0x10030"
    using f3 by (simp_all add: t1_def run)
  have g2: "load64 (mem t2) 0x10000 = 4064" "load32 (mem t2) 0x10008 = 1"
    "load64 (mem t2) 0x10010 = 0"
    using g1 by (simp_all add: t2_def run)
  have h1: "load64 (mem u1) 0x10000 = 16" "load32 (mem u1) 0x10008 = 0"
    "load64 (mem u1) 0x10010 = 0x10030" "load64 (mem u1) 0x10018 = 0"
    "load64 (mem u1) 0x10030 = 4016" "load32 (mem u1) 0x10038 = 1"
    "load64 (mem u1) 0x10040 = 0" "load64 (mem u1) 0x10048 = 0x10000"
    using f3 by (simp_all add: u1_def run)
  have h2: "load64 (mem u2) 0x10000 = 4064" "load32 (mem u2) 0x10008 = 1"
    "load64 (mem u2) 0x10010 = 0"
    using h1 by (simp_all add: u2_def run)
  show ?thesis
    using f3 g2 h2
    by (simp add: m1 m2 m3 t1_def [symmetric] t2_def [symmetric] u1_def [symmetric]
        u2_def [symmetric] header_fields)
qed

text \<open>
  Claim C3 says that no two neighbours in the list are both free after a public operation.
  Shrinking a block in place twice breaks this: each shrink splits a free remainder off the
  block and the second remainder (at \<open>0x10030\<close>) is put in front of the first (at
  \<open>0x107F0\<close>) without merging them.
\<close>

theorem shrink_leaves_adjacent_free_blocks:
  "(case allocator_malloc 4096 0x10000 16 (initial_state (\<lambda>_. 0)) of
      None \<Rightarrow> False
    | Some (p, s1) \<Rightarrow>
        (case allocator_realloc 4096 MAP_FAILED p 2000 s1 of
           None \<Rightarrow> False
         | Some (q, s2) \<Rightarrow>
             (case allocator_realloc 4096 MAP_FAILED q 16 s2 of
                None \<Rightarrow> False
              | Some (r, s3) \<Rightarrow>
                  p = 0x10020 \<and> q = p \<and> r = p \<and> free_list s3 = 0x10000
                  \<and> get_free s3 0x10000 = 0 \<and> get_size s3 0x10000 = 16
                  \<and> get_next s3 0x10000 = 0x10030 \<and> get_free s3 0x10030 = 1
                  \<and> get_size s3 0x10030 = 1952
                  \<and> 0x10030 + BLOCK_SIZE + get_size s3 0x10030 = 0x107F0
                  \<and> get_next s3 0x10030 = 0x107F0 \<and> get_free s3 0x107F0 = 1
                  \<and> get_size s3 0x107F0 = 2032 \<and> get_next s3 0x107F0 = NULL)))"
  by (simp add: run)

section \<open>Resizing keeps the payload\<close>





section \<open>Failure of the allocation inside a resize\<close>

text \<open>
  Claim C5. Let \<^verbatim>\<open>ptr\<close> be the payload pointer of an in-use block and let the requested size,
  once aligned, exceed the block's size, so that resize has to allocate a new block. If that
  allocation fails (the search finds no free block that fits and \<^verbatim>\<open>mmap\<close> returns
  \<^verbatim>\<open>MAP_FAILED\<close>), resize returns the null pointer and the state is the one before the call:
  the original block keeps its size, its in-use flag, its links and its payload bytes.
\<close>

theorem realloc_failure_keeps_state:
  assumes "ptr \<noteq> NULL" and "valid_block s (get_block ptr)"
    and "get_size s (get_block ptr) < align_size m"
    and "find_block (align_size m) s = Some NULL" and "mm = MAP_FAILED"
  shows "allocator_realloc pg mm ptr m s = Some (NULL, s)"
proof -
  from assms(3) have nz: "m \<noteq> 0" "align_size m \<noteq> 0"
    by (auto simp add: align_size_def ALIGNMENT_def)
  have "allocator_malloc pg MAP_FAILED (align_size m) s = Some (NULL, s)"
    using nz assms(4) by (simp add: malloc_fails align_size_idem)
  with assms nz show ?thesis
    by (simp add: allocator_realloc_def Let_def)
qed

theorem realloc_failure_keeps_state_witness:
  "(case allocator_malloc 4096 0x10000 16 (initial_state (\<lambda>_. 0)) of
      None \<Rightarrow> False
    | Some (p, s1) \<Rightarrow>
        p \<noteq> NULL \<and> valid_block s1 (get_block p) \<and> get_size s1 (get_block p) = 4064
        \<and> align_size 5000 = 5008 \<and> find_block (align_size 5000) s1 = Some NULL
        \<and> allocator_realloc 4096 MAP_FAILED p 5000 s1 = Some (NULL, s1))"
proof -
  let ?s1 = "snd (extend_heap 4096 0x10000 NULL 16 (initial_state (\<lambda>_. 0)))"
  have h: "valid_block ?s1 (get_block 0x10020)" "get_size ?s1 (get_block 0x10020) = 4064"
    "align_size 5000 = 5008" "find_block (align_size 5000) ?s1 = Some NULL"
    by (simp_all add: run)
  show ?thesis
    using h realloc_failure_keeps_state [of "0x10020" ?s1 5000 MAP_FAILED 4096]
    by (simp add: malloc_16_fresh)
qed

section \<open>Invalid input\<close>

text \<open>
  The claim that every pointer that is not the payload pointer of an in-use block is refused
  fails for a pointer into the middle of a payload: the allocator reads the 32 bytes before
  the pointer as a header, and fresh (zero-filled) payload reads as an in-use header. Below,
  \<^verbatim>\<open>p\<close> is the payload of the only block (header at \<open>0x10000\<close>); releasing \<^verbatim>\<open>p + 32\<close>
  writes the free flag 1 into the payload byte \<^verbatim>\<open>p[8]\<close>.
\<close>

theorem interior_pointer_counterexample:
  "(case allocator_malloc 4096 0x10000 64 (initial_state (\<lambda>_. 0)) of
      None \<Rightarrow> False
    | Some (p, s1) \<Rightarrow>
        p = 0x10020 \<and> free_list s1 = 0x10000 \<and> get_next s1 0x10000 = NULL
        \<and> get_free s1 0x10000 = 0 \<and> get_size s1 0x10000 = 4064
        \<and> get_block (p + 32) \<noteq> 0x10000
        \<and> mem s1 (p + 8) = 0
        \<and> mem (allocator_free (p + 32) s1) (p + 8) = 1)"
  by (simp add: run)

text \<open>
  Claim C6, amended. Allocating zero bytes returns the null pointer and releasing the null
  pointer does nothing. For a non-null pointer, what the allocator checks is the header it
  reads 32 bytes before the pointer. When the address of that header is not null (the
  pointer is not 32) and the free flag read there is not 0 (as for a block that was already
  released), release does nothing and resize returns the null pointer. In each of these
  cases the whole state, and so every block's size, flag, links and payload, is unchanged.
\<close>

theorem invalid_input_refused:
  "allocator_malloc pg mm 0 s = Some (NULL, s)
   \<and> allocator_free NULL s = s
   \<and> (ptr \<noteq> NULL \<and> get_block ptr \<noteq> NULL \<and> get_free s (get_block ptr) \<noteq> 0 \<longrightarrow>
        allocator_free ptr s = s \<and> allocator_realloc pg mm ptr n s = Some (NULL, s))"
  by (simp add: allocator_malloc_def allocator_free_def allocator_realloc_def valid_block_def)

text \<open>A double release and a resize of a released block, on the state of one block.\<close>

theorem invalid_input_refused_witness:
  "(case allocator_malloc 4096 0x10000 64 (initial_state (\<lambda>_. 0)) of
      None \<Rightarrow> False
    | Some (p, s1) \<Rightarrow>
        p \<noteq> NULL \<and> get_block p \<noteq> NULL \<and> get_free s1 (get_block p) = 0
        \<and> get_free (allocator_free p s1) (get_block p) \<noteq> 0
        \<and> allocator_free p (allocator_free p s1) = allocator_free p s1
        \<and> allocator_realloc 4096 0x20000 p 16 (allocator_free p s1) =
            Some (NULL, allocator_free p s1)
        \<and> allocator_realloc 4096 0x20000 p 0 (allocator_free p s1) =
            Some (NULL, allocator_free p s1))"
proof -
  let ?s1 = "snd (extend_heap 4096 0x10000 NULL 64 (initial_state (\<lambda>_. 0)))"
  have v: "get_block 0x10020 \<noteq> NULL" "get_free ?s1 (get_block 0x10020) = 0"
    by (simp_all add: run)
  have nv: "get_free (allocator_free 0x10020 ?s1) (get_block 0x10020) \<noteq> 0"
    by (simp add: run)
  show ?thesis
    using v nv
      invalid_input_refused [of 4096 "0x20000" "allocator_free 0x10020 ?s1" "0x10020" 16]
      invalid_input_refused [of 4096 "0x20000" "allocator_free 0x10020 ?s1" "0x10020" 0]
    by (simp add: malloc_64_fresh)
qed

section \<open>Shutdown\<close>

text \<open>
  Claim C7 says that \<^verbatim>\<open>allocator_destroy\<close> unmaps every region the allocator owns. The loop
  calls \<^verbatim>\<open>munmap\<close> only for blocks that are in use: after one allocation and its release,
  shutdown makes no \<^verbatim>\<open>munmap\<close> call, the mapping of 4096 bytes stays, and the list head is
  reset.
\<close>

theorem destroy_skips_free_blocks:
  "(case allocator_malloc 4096 0x10000 64 (initial_state (\<lambda>_. 0)) of
      None \<Rightarrow> False
    | Some (p, s1) \<Rightarrow>
        (case allocator_destroy (allocator_free p s1) of
           None \<Rightarrow> False
         | Some s2 \<Rightarrow>
             get_free (allocator_free p s1) 0x10000 = 1
             \<and> mmap_log s2 = [(0x10000, 4096)] \<and> munmap_log s2 = []
             \<and> free_list s2 = NULL))"
  by (simp add: run)

section \<open>Zeroed allocation\<close>

text \<open>
  The claim that the returned region has \<open>c * s\<close> bytes for every count and size fails when
  the product is above \<open>2 ^ 64 - 16\<close>, where \<^verbatim>\<open>align_size\<close> wraps. For the count \<open>2 ^ 64 - 1\<close> and
  the size 1 the aligned size is 0: one page is mapped, the block records 4064 bytes, and
  the zero fill of \<open>2 ^ 64 - 1\<close> bytes from the payload pointer runs over the block's own header
  (its size field reads 0 afterwards) and over memory outside the mapping (the byte at
  \<open>0x30000\<close>).
\<close>

theorem calloc_size_wraps_counterexample:
  "(case allocator_malloc 4096 0x10000 (- 1 * 1) (initial_state (\<lambda>_. 0xFF)) of
      None \<Rightarrow> False
    | Some (p, s1) \<Rightarrow>
        p = 0x10020 \<and> get_block p = 0x10000 \<and> get_size s1 0x10000 = 4064
        \<and> mmap_log s1 = [(0x10000, 4096)]
        \<and> unat (- 1 * 1 :: 64 word) = 2 ^ 64 - 1
        \<and> (case allocator_calloc 4096 0x10000 (- 1) 1 (initial_state (\<lambda>_. 0xFF)) of
             None \<Rightarrow> False
           | Some (q, s2) \<Rightarrow>
               q = p \<and> mmap_log s2 = [(0x10000, 4096)]
               \<and> get_size s2 (get_block q) = 0
               \<and> \<not> (- 1 * 1 \<le> get_size s2 (get_block q))
               \<and> mem (initial_state (\<lambda>_. 0xFF)) 0x30000 = 0xFF \<and> mem s2 0x30000 = 0))"
  by (simp add: run)

text \<open>
  Claim C8, amended. A successful \<^verbatim>\<open>allocator_calloc(c, n)\<close> is \<^verbatim>\<open>allocator_malloc\<close> of the product
  \<open>c * n\<close> (as \<^verbatim>\<open>size_t\<close> computes it) followed by a zero fill of that many bytes: every one
  of the \<open>c * n\<close> bytes from the returned pointer reads as zero, and when the product fits
  the word it is the mathematical product. When the page size is a power of two, the product
  plus 48 plus the page size is at most \<open>2 ^ 64\<close> (so that neither \<^verbatim>\<open>align_size\<close> nor the page
  rounding of \<^verbatim>\<open>extend_heap\<close> wraps) and a new mapping does not overlap the \<^verbatim>\<open>next\<close> field of
  the list head, the block behind the returned pointer records at least \<open>c * n\<close> bytes: the
  zeroed bytes are the block's own payload.
\<close>

theorem calloc_zero_filled:
  assumes "allocator_calloc pg mm c n s = Some (p, s')" and "p \<noteq> NULL"
  shows "(\<exists>s1. allocator_malloc pg mm (c * n) s = Some (p, s1)
            \<and> s' = s1\<lparr>mem := memset (mem s1) p 0 (c * n)\<rparr>)
   \<and> (\<forall>i < unat (c * n). mem s' (p + of_nat i) = 0)
   \<and> (unat c * unat n < 2 ^ 64 \<longrightarrow> unat (c * n) = unat c * unat n)
   \<and> ((\<exists>k<64. pg = 2 ^ k) \<and> unat (c * n) + 48 + unat pg \<le> 2 ^ 64
        \<and> (free_list s \<noteq> NULL \<longrightarrow> apart mm 32 (free_list s + 16) 8)
      \<longrightarrow> c * n \<le> get_size s' (get_block p))"
proof -
  obtain q s1 where m: "allocator_malloc pg mm (c * n) s = Some (q, s1)"
    using assms(1) by (cases "allocator_malloc pg mm (c * n) s") (auto simp add: allocator_calloc_def)
  with assms have q: "q = p" and s': "s' = s1\<lparr>mem := memset (mem s1) p 0 (c * n)\<rparr>"
    by (auto simp add: allocator_calloc_def split: if_splits)
  have z: "mem s' (p + of_nat i) = 0" if "i < unat (c * n)" for i
  proof -
    have "unat (of_nat i :: 64 word) \<le> i"
      by (simp add: unat_of_nat)
    with that have "unat (of_nat i :: 64 word) < unat (c * n)"
      by linarith
    then show ?thesis by (simp add: s' memset_def)
  qed
  have u: "unat c * unat n < 2 ^ 64 \<longrightarrow> unat (c * n) = unat c * unat n"
    using unat_mult_lem [of c n] by simp
  have cap: "c * n \<le> get_size s' (get_block p)"
    if k: "\<exists>k<64. pg = 2 ^ k" and fit: "unat (c * n) + 48 + unat pg \<le> 2 ^ 64"
      and sep: "free_list s \<noteq> NULL \<longrightarrow> apart mm 32 (free_list s + 16) 8"
  proof -
    from k obtain k where k: "k < 64" "pg = 2 ^ k" by blast
    from malloc_capacity [OF m [unfolded q] assms(2) k fit sep]
    have b: "p = get_block p + BLOCK_SIZE" and le: "c * n \<le> get_size s1 (get_block p)"
      by simp_all
    define b where "b = get_block p"
    have "c * n \<noteq> 0"
      using m q assms(2) by (auto simp add: malloc_zero)
    then have "0 < unat (c * n)"
      by (simp add: unat_gt_0)
    then have "apart (b + of_nat 0) 8 (b + of_nat 32) (unat (c * n))"
      by (intro apart_offsets) (use fit in simp_all)
    then have "apart b 8 p (unat (c * n))"
      using b by (simp add: b_def BLOCK_SIZE_def)
    then have "load64 (memset (mem s1) p 0 (c * n)) b = load64 (mem s1) b"
      by (rule load64_memset_apart)
    then have "get_size s' b = get_size s1 b"
      by (simp add: s' get_size_def)
    with le show ?thesis
      by (simp add: b_def)
  qed
  from m q s' have "\<exists>s1. allocator_malloc pg mm (c * n) s = Some (p, s1)
            \<and> s' = s1\<lparr>mem := memset (mem s1) p 0 (c * n)\<rparr>"
    by blast
  with z u cap show ?thesis by blast
qed

text \<open>
  Ten elements of four bytes, served from a released block whose payload was dirty, and
  served from a new mapping: the 40 bytes read as zero and the block records at least 40
  bytes.
\<close>

theorem calloc_zero_filled_witness:
  "(case allocator_malloc 4096 0x10000 64 (initial_state (\<lambda>_. 0)) of
      None \<Rightarrow> False
    | Some (p, s1) \<Rightarrow>
        (case allocator_calloc 4096 MAP_FAILED 10 4
                (allocator_free p (s1\<lparr>mem := memset (mem s1) p 0xAB 64\<rparr>)) of
           None \<Rightarrow> False
         | Some (q, s2) \<Rightarrow>
             q = p \<and> q \<noteq> NULL
             \<and> mem (allocator_free p (s1\<lparr>mem := memset (mem s1) p 0xAB 64\<rparr>)) q = 0xAB
             \<and> mem s2 q = 0 \<and> mem s2 (q + 39) = 0
             \<and> (10 * 4 :: 64 word) \<le> get_size s2 (get_block q)))
   \<and> (case allocator_calloc 4096 0x10000 10 4 (initial_state (\<lambda>_. 0xFF)) of
         None \<Rightarrow> False
       | Some (q, s2) \<Rightarrow>
           q = 0x10020 \<and> mem (initial_state (\<lambda>_. 0xFF)) q = 0xFF
           \<and> mem s2 q = 0 \<and> mem s2 (q + 39) = 0
           \<and> (10 * 4 :: 64 word) \<le> get_size s2 (get_block q))"
proof -
  let ?s1 = "snd (extend_heap 4096 0x10000 NULL 64 (initial_state (\<lambda>_. 0)))"
  let ?s = "allocator_free 0x10020 (?s1\<lparr>mem := memset (mem ?s1) 0x10020 0xAB 64\<rparr>)"
  let ?e = "initial_state (\<lambda>_. 0xFF)"
  have "\<exists>s2. allocator_calloc 4096 MAP_FAILED 10 4 ?s = Some (0x10020, s2)"
    by (simp add: run)
  then obtain s2 where c: "allocator_calloc 4096 MAP_FAILED 10 4 ?s = Some (0x10020, s2)" ..
  have "\<exists>s3. allocator_calloc 4096 0x10000 10 4 ?e = Some (0x10020, s3)"
    by (simp add: run)
  then obtain s3 where c': "allocator_calloc 4096 0x10000 10 4 ?e = Some (0x10020, s3)" ..
  have dirty: "mem ?s 0x10020 = 0xAB" "mem ?e 0x10020 = 0xFF"
    by (simp_all add: run)
  have k: "\<exists>k<64. (4096 :: 64 word) = 2 ^ k"
    by (rule exI [of _ 12]) simp
  have sep: "free_list ?s \<noteq> NULL \<longrightarrow> apart MAP_FAILED 32 (free_list ?s + 16) 8"
    "free_list ?e \<noteq> NULL \<longrightarrow> apart 0x10000 32 (free_list ?e + 16) 8"
    by (simp_all add: run)
  from calloc_zero_filled [OF c]
  have z: "\<forall>i<unat (10 * 4 :: 64 word). mem s2 (0x10020 + of_nat i) = 0"
    and cap: "(\<exists>k<64. (4096 :: 64 word) = 2 ^ k) \<and> unat (10 * 4 :: 64 word) + 48 + unat (4096 :: 64 word) \<le> 2 ^ 64
        \<and> (free_list ?s \<noteq> NULL \<longrightarrow> apart MAP_FAILED 32 (free_list ?s + 16) 8)
      \<longrightarrow> (10 * 4 :: 64 word) \<le> get_size s2 (get_block 0x10020)"
    by simp_all
  from calloc_zero_filled [OF c']
  have z': "\<forall>i<unat (10 * 4 :: 64 word). mem s3 (0x10020 + of_nat i) = 0"
    and cap': "(\<exists>k<64. (4096 :: 64 word) = 2 ^ k) \<and> unat (10 * 4 :: 64 word) + 48 + unat (4096 :: 64 word) \<le> 2 ^ 64
        \<and> (free_list ?e \<noteq> NULL \<longrightarrow> apart 0x10000 32 (free_list ?e + 16) 8)
      \<longrightarrow> (10 * 4 :: 64 word) \<le> get_size s3 (get_block 0x10020)"
    by simp_all
  from cap k sep(1) have g: "(10 * 4 :: 64 word) \<le> get_size s2 (get_block 0x10020)"
    by simp
  from cap' k sep(2) have g': "(10 * 4 :: 64 word) \<le> get_size s3 (get_block 0x10020)"
    by simp
  from z [rule_format, of 0] z [rule_format, of 39]
  have b: "mem s2 0x10020 = 0" "mem s2 (0x10020 + 39) = 0"
    by simp_all
  from z' [rule_format, of 0] z' [rule_format, of 39]
  have b': "mem s3 0x10020 = 0" "mem s3 (0x10020 + 39) = 0"
    by simp_all
  from dirty g g' b b' show ?thesis
    by (simp only: malloc_64_fresh c c' option.case prod.case) simp
qed

section \<open>Initialisation\<close>

text \<open>
  Claim C9. \<^verbatim>\<open>allocator_init\<close> returns 0 and leaves the state as it is. Hence calling it
  twice is the same as calling it once, every other public operation gives the same result
  on the state after \<^verbatim>\<open>allocator_init\<close> as on the state before it, and no set-up is
  needed: the list head starts as the null pointer, on which the first-fit search finds
  nothing, so the first allocation maps memory itself.
\<close>

theorem allocator_init_noop:
  "allocator_init s = (0, s)
   \<and> allocator_init (snd (allocator_init s)) = allocator_init s
   \<and> allocator_malloc pg mm n (snd (allocator_init s)) = allocator_malloc pg mm n s
   \<and> allocator_free p (snd (allocator_init s)) = allocator_free p s
   \<and> allocator_realloc pg mm p n (snd (allocator_init s)) = allocator_realloc pg mm p n s
   \<and> allocator_calloc pg mm c n (snd (allocator_init s)) = allocator_calloc pg mm c n s
   \<and> allocator_destroy (snd (allocator_init s)) = allocator_destroy s
   \<and> free_list (initial_state m) = NULL
   \<and> find_block n (initial_state m) = Some NULL"
  by (simp add: allocator_init_def initial_state_def find_block_def find_block_from.simps)

section \<open>Overflow of the zeroed allocation's product\<close>



end
